theory Spec2Isabelle
  imports Complex_Main "HOL-Library.Word"
begin

section \<open>Python values: errors, byte buffers, loops\<close>

text \<open>
  The module \<^verbatim>\<open>kitty/fonts/box_drawing.py\<close> draws into a flat, row-major
  \<^verbatim>\<open>bytearray\<close>.  Python integers are \<^typ>\<open>int\<close>, a byte is an
  \<^typ>\<open>8 word\<close>, and Python floats are the rationals they denote, with exact
  arithmetic (the rounding of binary64 operations is not modelled).

  A drawing routine mutates its buffer in place and may raise part-way, so its
  result is an \<open>outcome\<close>: the buffer as the routine left it, returned
  normally or together with the exception raised.
\<close>

datatype error = KeyError | IndexError | ZeroDivisionError | ValueError | UnboundLocalError

type_synonym byte = "8 word"

type_synonym buf = "byte list"

datatype outcome = Returned (buffer: buf) | Raised (raised: error) (buffer: buf)

text \<open>\<^verbatim>\<open>buf[i] = v\<close> on a bytearray: an index in \<open>[-len, 0)\<close> counts from the
  end, anything outside \<open>[-len, len)\<close> raises IndexError.\<close>

definition setitem :: "buf \<Rightarrow> int \<Rightarrow> byte \<Rightarrow> outcome" where
  "setitem b i v =
     (let n = int (length b) in
      if 0 \<le> i \<and> i < n then Returned (b[nat i := v])
      else if - n \<le> i \<and> i < 0 then Returned (b[nat (n + i) := v])
      else Raised IndexError b)"

text \<open>\<^verbatim>\<open>buf[i]\<close> read as a Python integer.\<close>

definition getitem :: "buf \<Rightarrow> int \<Rightarrow> error + int" where
  "getitem b i =
     (let n = int (length b) in
      if 0 \<le> i \<and> i < n then Inr (uint (b ! nat i))
      else if - n \<le> i \<and> i < 0 then Inr (uint (b ! nat (n + i)))
      else Inl IndexError)"

text \<open>\<^verbatim>\<open>range(a, b)\<close>.\<close>

definition py_range :: "int \<Rightarrow> int \<Rightarrow> int list" where
  "py_range a b = [a..b - 1]"

text \<open>\<^verbatim>\<open>for x in xs: body\<close> over a buffer; an exception ends the loop.\<close>

fun for_each :: "'a list \<Rightarrow> ('a \<Rightarrow> buf \<Rightarrow> outcome) \<Rightarrow> buf \<Rightarrow> outcome" where
  "for_each [] body b = Returned b"
| "for_each (x # xs) body b =
     (case body x b of
        Returned b' \<Rightarrow> for_each xs body b'
      | Raised e b' \<Rightarrow> Raised e b')"

text \<open>Statement sequencing: the second statement runs on the buffer the first left,
  unless the first raised.\<close>

definition and_then :: "outcome \<Rightarrow> (buf \<Rightarrow> outcome) \<Rightarrow> outcome" where
  "and_then r f = (case r of Returned b \<Rightarrow> f b | Raised e b \<Rightarrow> Raised e b)"

section \<open>ScaleConfig: the module globals and \<open>thickness\<close>\<close>

text \<open>The two module-level variables \<^verbatim>\<open>scale\<close> (a 4-tuple) and
  \<^verbatim>\<open>_dpi\<close>, with their initial values (lines 18-19).\<close>

record globals =
  scale :: "rat \<times> rat \<times> rat \<times> rat"
  dpi :: rat

definition initial_globals :: globals where
  "initial_globals = \<lparr>scale = (1 / 1000, 1, 3 / 2, 2), dpi = 96\<rparr>"

text \<open>\<^verbatim>\<open>set_scale\<close> replaces the tuple by the first four items of its argument.\<close>

definition set_scale :: "globals \<Rightarrow> rat list \<Rightarrow> error + globals" where
  "set_scale g new_scale =
     (if length new_scale < 4 then Inl IndexError
      else Inr (g\<lparr>scale := (new_scale ! 0, new_scale ! 1, new_scale ! 2, new_scale ! 3)\<rparr>))"

text \<open>\<^verbatim>\<open>scale[level]\<close>: indexing a 4-tuple, negative indices from the end.\<close>

definition scale_item :: "rat \<times> rat \<times> rat \<times> rat \<Rightarrow> int \<Rightarrow> error + rat" where
  "scale_item s level =
     (case s of (s0, s1, s2, s3) \<Rightarrow>
        if level = 0 \<or> level = - 4 then Inr s0
        else if level = 1 \<or> level = - 3 then Inr s1
        else if level = 2 \<or> level = - 2 then Inr s2
        else if level = 3 \<or> level = - 1 then Inr s3
        else Inl IndexError)"

text \<open>\<^verbatim>\<open>thickness(level, horizontal)\<close>: \<^verbatim>\<open>int(math.ceil(pts * (_dpi / 72.0)))\<close>.
  The flag is a parameter of the source function and is not read by its body.\<close>

definition thickness :: "globals \<Rightarrow> int \<Rightarrow> bool \<Rightarrow> error + int" where
  "thickness g level horizontal =
     (case scale_item (scale g) level of
        Inl e \<Rightarrow> Inl e
      | Inr pts \<Rightarrow> Inr \<lceil>pts * (dpi g / 72)\<rceil>)"

section \<open>PrimitiveDrawing\<close>

text \<open>\<^verbatim>\<open>draw_hline(buf, width, x1, x2, y, level)\<close> (lines 33-40).\<close>

definition draw_hline :: "globals \<Rightarrow> buf \<Rightarrow> int \<Rightarrow> int \<Rightarrow> int \<Rightarrow> int \<Rightarrow> int \<Rightarrow> outcome" where
  "draw_hline g buf width x1 x2 y level =
     (case thickness g level False of
        Inl e \<Rightarrow> Raised e buf
      | Inr sz \<Rightarrow>
          let start = y - sz div 2 in
          for_each (py_range start (start + sz))
            (\<lambda>y b. let offset = y * width in
               for_each (py_range x1 x2) (\<lambda>x b. setitem b (offset + x) 255) b)
            buf)"

text \<open>\<^verbatim>\<open>draw_vline(buf, width, y1, y2, x, level)\<close> (lines 43-49).\<close>

definition draw_vline :: "globals \<Rightarrow> buf \<Rightarrow> int \<Rightarrow> int \<Rightarrow> int \<Rightarrow> int \<Rightarrow> int \<Rightarrow> outcome" where
  "draw_vline g buf width y1 y2 x level =
     (case thickness g level True of
        Inl e \<Rightarrow> Raised e buf
      | Inr sz \<Rightarrow>
          let start = x - sz div 2 in
          for_each (py_range start (start + sz))
            (\<lambda>x b. for_each (py_range y1 y2) (\<lambda>y b. setitem b (x + y * width) 255) b)
            buf)"

section \<open>LinePatternBuilders\<close>

text \<open>A drawing routine as the entry point calls it, \<^verbatim>\<open>func(buf, width, height)\<close>, with
  the module globals it reads.\<close>

type_synonym drawing = "globals \<Rightarrow> buf \<Rightarrow> int \<Rightarrow> int \<Rightarrow> outcome"

text \<open>\<^verbatim>\<open>half_hline\<close> and \<^verbatim>\<open>half_vline\<close> (lines 52-59).  The selector \<open>which\<close> is a
  Python string; every value other than \<open>'left'\<close> (\<open>'top'\<close>) takes the second branch.\<close>

definition half_hline :: "globals \<Rightarrow> buf \<Rightarrow> int \<Rightarrow> int \<Rightarrow> int \<Rightarrow> string \<Rightarrow> int \<Rightarrow> outcome" where
  "half_hline g buf width height level which extend_by =
     (let (x1, x2) = (if which = ''left'' then (0, extend_by + width div 2)
                      else (width div 2 - extend_by, width))
      in draw_hline g buf width x1 x2 (height div 2) level)"

definition half_vline :: "globals \<Rightarrow> buf \<Rightarrow> int \<Rightarrow> int \<Rightarrow> int \<Rightarrow> string \<Rightarrow> int \<Rightarrow> outcome" where
  "half_vline g buf width height level which extend_by =
     (let (y1, y2) = (if which = ''top'' then (0, height div 2 + extend_by)
                      else (height div 2 - extend_by, height))
      in draw_vline g buf width y1 y2 (width div 2) level)"

text \<open>\<^verbatim>\<open>get_holes(sz, hole_sz, num)\<close> (lines 62-74): the list of holes, each the tuple of
  its columns.  For \<open>num\<close> outside \<open>{1, 2, 3}\<close> the local \<open>pts\<close> is never bound and the
  loop over it raises.\<close>

definition get_holes :: "int \<Rightarrow> int \<Rightarrow> int \<Rightarrow> error + int list list" where
  "get_holes sz hole_sz num =
     (let holes_of = (\<lambda>pts. map (\<lambda>c. py_range (c - hole_sz div 2) (c - hole_sz div 2 + hole_sz)) pts) in
      if num = 1 then Inr (holes_of [sz div 2])
      else if num = 2 then
        (let ssz = (sz - 2 * hole_sz) div 3 in
         Inr (holes_of [ssz + hole_sz div 2, 2 * ssz + hole_sz div 2 + hole_sz]))
      else if num = 3 then
        (let ssz = (sz - 3 * hole_sz) div 4 in
         Inr (holes_of [ssz + hole_sz div 2, 2 * ssz + hole_sz div 2 + hole_sz,
                        3 * ssz + 2 * hole_sz + hole_sz div 2]))
      else Inl UnboundLocalError)"

definition hole_factor :: int where
  "hole_factor = 8"

text \<open>\<^verbatim>\<open>add_hholes(buf, width, height, level, num)\<close> (lines 80-89).\<close>

definition add_hholes :: "globals \<Rightarrow> buf \<Rightarrow> int \<Rightarrow> int \<Rightarrow> int \<Rightarrow> int \<Rightarrow> outcome" where
  "add_hholes g buf width height level num =
     (case thickness g level True of
        Inl e \<Rightarrow> Raised e buf
      | Inr line_sz \<Rightarrow>
          let hole_sz = width div hole_factor;
              start = height div 2 - line_sz div 2 in
          (case get_holes width hole_sz num of
             Inl e \<Rightarrow> Raised e buf
           | Inr holes \<Rightarrow>
               for_each (py_range start (start + line_sz))
                 (\<lambda>y b. let offset = y * width in
                    for_each holes (\<lambda>hole b. for_each hole (\<lambda>x b. setitem b (offset + x) 0) b) b)
                 buf))"

text \<open>\<^verbatim>\<open>hline\<close> (lines 103-105) and \<^verbatim>\<open>hholes\<close> (lines 113-115).\<close>

definition hline :: "globals \<Rightarrow> buf \<Rightarrow> int \<Rightarrow> int \<Rightarrow> int \<Rightarrow> outcome" where
  "hline g buf width height level =
     and_then (half_hline g buf width height level ''left'' 0) (\<lambda>buf.
     half_hline g buf width height level ''right'' 0)"

definition hholes :: "globals \<Rightarrow> buf \<Rightarrow> int \<Rightarrow> int \<Rightarrow> int \<Rightarrow> int \<Rightarrow> outcome" where
  "hholes g buf width height level num =
     and_then (hline g buf width height level) (\<lambda>buf.
     add_hholes g buf width height level num)"

text \<open>\<^verbatim>\<open>cross(buf, width, height, a, b, c, d)\<close> (lines 142-146).\<close>

definition cross :: "globals \<Rightarrow> buf \<Rightarrow> int \<Rightarrow> int \<Rightarrow> int \<Rightarrow> int \<Rightarrow> int \<Rightarrow> int \<Rightarrow> outcome" where
  "cross g buf width height a b c d =
     and_then (half_hline g buf width height a ''left'' 0) (\<lambda>buf.
     and_then (half_hline g buf width height b ''right'' 0) (\<lambda>buf.
     and_then (half_vline g buf width height c ''top'' 0) (\<lambda>buf.
     half_vline g buf width height d ''bottom'' 0)))"

section \<open>Supersampler\<close>

text \<open>A loop that accumulates a value and reads the buffer without changing it.\<close>

fun for_acc :: "'a list \<Rightarrow> ('a \<Rightarrow> 's \<Rightarrow> error + 's) \<Rightarrow> 's \<Rightarrow> error + 's" where
  "for_acc [] body s = Inr s"
| "for_acc (x # xs) body s =
     (case body x s of
        Inl e \<Rightarrow> Inl e
      | Inr s' \<Rightarrow> for_acc xs body s')"

text \<open>\<^verbatim>\<open>buf[i] = v\<close> for a Python integer \<open>v\<close>: a bytearray takes a value in \<open>range(256)\<close>
  only.  Every value the module stores is in that range.\<close>

definition setitem_int :: "buf \<Rightarrow> int \<Rightarrow> int \<Rightarrow> outcome" where
  "setitem_int b i v =
     (if 0 \<le> v \<and> v < 256 then setitem b i (word_of_int v) else Raised ValueError b)"

text \<open>\<^verbatim>\<open>average_intensity_in_src(dest_x, dest_y)\<close>, the closure of \<^verbatim>\<open>downsample\<close> (lines
  152-160) over \<open>src\<close>, \<open>src_width\<close> and \<open>factor\<close>.\<close>

definition average_intensity_in_src :: "buf \<Rightarrow> int \<Rightarrow> int \<Rightarrow> int \<Rightarrow> int \<Rightarrow> error + int" where
  "average_intensity_in_src src src_width factor dest_x dest_y =
     (let src_y = dest_y * factor; src_x = dest_x * factor in
      case for_acc (py_range src_y (src_y + factor))
             (\<lambda>y total'. let offset = src_width * y in
                for_acc (py_range src_x (src_x + factor))
                  (\<lambda>x total'. case getitem src (offset + x) of
                                 Inl e \<Rightarrow> Inl e
                               | Inr v \<Rightarrow> Inr (total' + v))
                  total')
             0 of
        Inl e \<Rightarrow> Inl e
      | Inr total' \<Rightarrow>
          if factor * factor = 0 then Inl ZeroDivisionError
          else Inr (total' div (factor * factor)))"

text \<open>\<^verbatim>\<open>downsample(src, dest, dest_width, dest_height, factor)\<close> (lines 149-165).  The source
  width is \<open>4 * dest_width\<close> whatever the factor.\<close>

definition downsample :: "buf \<Rightarrow> buf \<Rightarrow> int \<Rightarrow> int \<Rightarrow> int \<Rightarrow> outcome" where
  "downsample src dest dest_width dest_height factor =
     (let src_width = 4 * dest_width in
      for_each (py_range 0 dest_height)
        (\<lambda>y dest. let offset = dest_width * y in
           for_each (py_range 0 dest_width)
             (\<lambda>x dest.
                case getitem dest (offset + x) of
                  Inl e \<Rightarrow> Raised e dest
                | Inr old \<Rightarrow>
                    (case average_intensity_in_src src src_width factor x y of
                       Inl e \<Rightarrow> Raised e dest
                     | Inr avg \<Rightarrow> setitem_int dest (offset + x) (min 255 (old + avg))))
             dest)
        dest)"

text \<open>
  \<^verbatim>\<open>supersampled(supersample_factor)(f)\<close> (lines 168-184).  The scratch buffer is an
  \<^verbatim>\<open>SSByteArray\<close>, a bytearray that carries the attribute \<^verbatim>\<open>supersample_factor\<close>; the
  wrapped routine receives the attribute's value as its first argument here.  The
  scratch buffer is dropped when \<open>f\<close> raises, and the caller's buffer is then as it was.
\<close>

type_synonym ss_drawing = "int \<Rightarrow> globals \<Rightarrow> buf \<Rightarrow> int \<Rightarrow> int \<Rightarrow> outcome"

definition supersampled :: "int \<Rightarrow> ss_drawing \<Rightarrow> drawing" where
  "supersampled supersample_factor f g buf width height =
     (let w = supersample_factor * width; h = supersample_factor * height in
      if w * h < 0 then Raised ValueError buf
      else
        (case f supersample_factor g (replicate (nat (w * h)) 0) w h of
           Raised e ssbuf \<Rightarrow> Raised e buf
         | Returned ssbuf \<Rightarrow> downsample ssbuf buf width height supersample_factor))"

section \<open>CurveRasterizers\<close>

text \<open>\<^verbatim>\<open>int(q)\<close> of a float: truncation towards zero.\<close>

definition py_int :: "rat \<Rightarrow> int" where
  "py_int q = (if 0 \<le> q then \<lfloor>q\<rfloor> else \<lceil>q\<rceil>)"

text \<open>\<^verbatim>\<open>fill_region(buf, width, height, xlimits)\<close> (lines 187-191).\<close>

definition fill_region :: "buf \<Rightarrow> int \<Rightarrow> int \<Rightarrow> (rat \<times> rat) list \<Rightarrow> outcome" where
  "fill_region buf width height xlimits =
     for_each (py_range 0 height)
       (\<lambda>y b. let offset = y * width in
          for_each (enumerate 0 xlimits)
            (\<lambda>(x, (upper, lower)) b.
               setitem b (int x + offset) (if upper \<le> of_int y \<and> of_int y \<le> lower then 255 else 0))
            b)
       buf"

text \<open>\<^verbatim>\<open>line_equation(x1, y1, x2, y2)\<close> (lines 194-201): the division raises for a vertical
  line.\<close>

definition line_equation :: "int \<Rightarrow> int \<Rightarrow> int \<Rightarrow> int \<Rightarrow> error + (int \<Rightarrow> rat)" where
  "line_equation x1 y1 x2 y2 =
     (if x2 - x1 = 0 then Inl ZeroDivisionError
      else
        let m = of_int (y2 - y1) / of_int (x2 - x1);
            c = of_int y1 - m * of_int x1
        in Inr (\<lambda>x. m * of_int x + c))"

text \<open>\<^verbatim>\<open>thick_line(buf, width, height, thickness_in_pixels, p1, p2)\<close> (lines 234-246).\<close>

definition thick_line :: "buf \<Rightarrow> int \<Rightarrow> int \<Rightarrow> int \<Rightarrow> int \<times> int \<Rightarrow> int \<times> int \<Rightarrow> outcome" where
  "thick_line buf width height thickness_in_pixels p1 p2 =
     (let (p1, p2) = (if fst p1 > fst p2 then (p2, p1) else (p1, p2)) in
      case line_equation (fst p1) (snd p1) (fst p2) (snd p2) of
        Inl e \<Rightarrow> Raised e buf
      | Inr leq \<Rightarrow>
          let delta = thickness_in_pixels div 2; extra = thickness_in_pixels mod 2 in
          for_each (py_range (fst p1) (fst p2 + 1))
            (\<lambda>x b.
               if 0 \<le> x \<and> x < width then
                 let y_p = leq x;
                     r = py_range (py_int y_p - delta) (py_int y_p + delta + extra)
                 in for_each r
                      (\<lambda>y b. if 0 \<le> y \<and> y < height then setitem b (x + y * width) 255
                              else Returned b)
                      b
               else Returned b)
            buf)"

text \<open>\<^verbatim>\<open>cross_line\<close> (lines 249-256) and \<^verbatim>\<open>half_cross_line\<close> (lines 259-276), before and
  after the decorator \<^verbatim>\<open>@supersampled()\<close>.\<close>

definition cross_line_raw :: "bool \<Rightarrow> int \<Rightarrow> ss_drawing" where
  "cross_line_raw left level supersample_factor g buf width height =
     (let (p1, p2) = (if left then ((0, 0), (width - 1, height - 1))
                      else ((width - 1, 0), (0, height - 1)))
      in case thickness g level True of
           Inl e \<Rightarrow> Raised e buf
         | Inr t \<Rightarrow> thick_line buf width height (supersample_factor * t) p1 p2)"

definition cross_line :: "bool \<Rightarrow> int \<Rightarrow> drawing" where
  "cross_line left level = supersampled 4 (cross_line_raw left level)"

definition half_cross_line_raw :: "string \<Rightarrow> int \<Rightarrow> ss_drawing" where
  "half_cross_line_raw which level supersample_factor g buf width height =
     (case thickness g level True of
        Inl e \<Rightarrow> Raised e buf
      | Inr t \<Rightarrow>
          let thickness_in_pixels = t * supersample_factor;
              my = (height - 1) div 2;
              (p1, p2) =
                (if which = ''tl'' then ((0, 0), (width - 1, my))
                 else if which = ''bl'' then ((width - 1, my), (0, height - 1))
                 else if which = ''tr'' then ((width - 1, 0), (0, my))
                 else ((0, my), (width - 1, height - 1)))
          in thick_line buf width height thickness_in_pixels p1 p2)"

definition half_cross_line :: "string \<Rightarrow> int \<Rightarrow> drawing" where
  "half_cross_line which level = supersampled 4 (half_cross_line_raw which level)"

text \<open>\<^verbatim>\<open>cubic_bezier(start, end, c1, c2)\<close> (lines 282-295): the two coordinate functions.\<close>

definition bezier_eq :: "int \<Rightarrow> int \<Rightarrow> int \<Rightarrow> int \<Rightarrow> rat \<Rightarrow> rat" where
  "bezier_eq p0 p1 p2 p3 t =
     (let tm1 = 1 - t; tm1_3 = tm1 * tm1 * tm1; t_3 = t * t * t in
      tm1_3 * of_int p0 + 3 * t * tm1 * (tm1 * of_int p1 + t * of_int p2) + t_3 * of_int p3)"

definition cubic_bezier ::
  "int \<times> int \<Rightarrow> int \<times> int \<Rightarrow> int \<times> int \<Rightarrow> int \<times> int \<Rightarrow> (rat \<Rightarrow> rat) \<times> (rat \<Rightarrow> rat)" where
  "cubic_bezier start end' c1 c2 =
     (bezier_eq (fst start) (fst c1) (fst c2) (fst end'),
      bezier_eq (snd start) (snd c1) (snd c2) (snd end'))"

text \<open>
  \<^verbatim>\<open>D(buf, width, height, left)\<close> (lines 346-364), before the decorator.  Lines 348-354
  compute \<open>xlimits\<close> with binary64 arithmetic (\<^verbatim>\<open>find_bezier_for_D\<close>, \<^verbatim>\<open>cubic_bezier\<close> and
  the search of \<^verbatim>\<open>get_bezier_limits\<close>, which raises ValueError when it does not
  converge).  What they yield for a cell size, the list of \<open>(upper, lower)\<close> pairs or
  the exception, is the parameter \<open>bezier_limits\<close>: the values of the limits are not
  modelled, every use of them is.  The buffer \<open>mbuf\<close> is a fresh \<^verbatim>\<open>bytearray\<close>.
\<close>

definition D_raw :: "(int \<Rightarrow> int \<Rightarrow> error + (rat \<times> rat) list) \<Rightarrow> bool \<Rightarrow> ss_drawing" where
  "D_raw bezier_limits left supersample_factor g buf width height =
     (case bezier_limits width height of
        Inl e \<Rightarrow> Raised e buf
      | Inr xlimits \<Rightarrow>
          if left then fill_region buf width height xlimits
          else if width * height < 0 then Raised ValueError buf
          else
            (case fill_region (replicate (nat (width * height)) 0) width height xlimits of
               Raised e mbuf \<Rightarrow> Raised e buf
             | Returned mbuf \<Rightarrow>
                 for_each (py_range 0 height)
                   (\<lambda>y b. let offset = y * width in
                      for_each (py_range 0 width)
                        (\<lambda>src_x b.
                           let dest_x = width - 1 - src_x in
                           case getitem mbuf (offset + src_x) of
                             Inl e \<Rightarrow> Raised e b
                           | Inr v \<Rightarrow> setitem_int b (offset + dest_x) v)
                        b)
                   buf))"

definition D :: "(int \<Rightarrow> int \<Rightarrow> error + (rat \<times> rat) list) \<Rightarrow> bool \<Rightarrow> drawing" where
  "D bezier_limits left = supersampled 4 (D_raw bezier_limits left)"

text \<open>\<^verbatim>\<open>draw_parametrized_curve(buf, width, height, thickness_in_pixels, xfunc, yfunc)\<close>
  (lines 367-383).  The loop over the samples carries the set \<open>seen\<close> and the buffer;
  \<^verbatim>\<open>i / num_samples\<close> raises when the height is 0.\<close>

fun curve_samples ::
  "int \<Rightarrow> int \<Rightarrow> int \<Rightarrow> int \<Rightarrow> int \<Rightarrow> (rat \<Rightarrow> rat) \<Rightarrow> (rat \<Rightarrow> rat) \<Rightarrow> int list \<Rightarrow> (int \<times> int) set \<Rightarrow> buf
     \<Rightarrow> outcome" where
  "curve_samples width height num_samples delta extra xfunc yfunc [] seen buf = Returned buf"
| "curve_samples width height num_samples delta extra xfunc yfunc (i # rest) seen buf =
     (if num_samples = 0 then Raised ZeroDivisionError buf
      else
        let t = of_int i / of_int num_samples;
            x_p = py_int (xfunc t); y_p = py_int (yfunc t);
            p = (x_p, y_p)
        in if p \<in> seen then curve_samples width height num_samples delta extra xfunc yfunc rest seen buf
           else
             (case for_each (py_range (y_p - delta) (y_p + delta + extra))
                     (\<lambda>y b.
                        if 0 \<le> y \<and> y < height then
                          let offset = y * width in
                          for_each (py_range (x_p - delta) (x_p + delta + extra))
                            (\<lambda>x b.
                               if 0 \<le> x \<and> x < width then
                                 let pos = offset + x in
                                 case getitem b pos of
                                   Inl e \<Rightarrow> Raised e b
                                 | Inr v \<Rightarrow> setitem_int b pos (min 255 (v + 255))
                               else Returned b)
                            b
                        else Returned b)
                     buf of
                Raised e b \<Rightarrow> Raised e b
              | Returned b \<Rightarrow>
                  curve_samples width height num_samples delta extra xfunc yfunc rest (insert p seen) b))"

definition draw_parametrized_curve ::
  "buf \<Rightarrow> int \<Rightarrow> int \<Rightarrow> int \<Rightarrow> (rat \<Rightarrow> rat) \<Rightarrow> (rat \<Rightarrow> rat) \<Rightarrow> outcome" where
  "draw_parametrized_curve buf width height thickness_in_pixels xfunc yfunc =
     (let num_samples = height * 4;
          delta = thickness_in_pixels div 2; extra = thickness_in_pixels mod 2
      in curve_samples width height num_samples delta extra xfunc yfunc
           (py_range 0 (num_samples + 1)) {} buf)"

text \<open>Modelled from the spec: the four character literals that \<^verbatim>\<open>rounded_corner\<close>
  compares \<open>which\<close> with read \<open>?\<close> in the source file.  The spec says that they select one
  of four arcs, one per corner, so a selector is the number of the branch it takes, in
  the order of the source; any other value takes none.\<close>

datatype arc = Arc1 | Arc2 | Arc3 | Arc4 | No_arc

text \<open>\<^verbatim>\<open>rounded_corner(buf, width, height, level, which)\<close> (lines 386-411), before and
  after the decorator.  When no branch is taken \<open>start\<close> is unbound at the call of
  \<^verbatim>\<open>cubic_bezier\<close>.\<close>

definition rounded_corner_raw :: "int \<Rightarrow> arc \<Rightarrow> ss_drawing" where
  "rounded_corner_raw level which supersample_factor g buf width height =
     (case thickness g level True of
        Inl e \<Rightarrow> Raised e buf
      | Inr t \<Rightarrow>
          let thickness_in_pixels = t * supersample_factor in
          (case (case which of
                   Arc1 \<Rightarrow> Some ((width div 2, height - 1), (width - 1, height div 2),
                                  (width div 2, py_int (3 / 4 * of_int height)),
                                  (width div 2, height div 2 + 1))
                 | Arc2 \<Rightarrow> Some ((0, height div 2), (width div 2, height - 1),
                                  (width div 2, height div 2 + 1),
                                  (width div 2, py_int (3 / 4 * of_int height)))
                 | Arc3 \<Rightarrow> Some ((width div 2, 0), (width - 1, height div 2),
                                  (width div 2, py_int (1 / 4 * of_int height)),
                                  (width div 2 - 1, height div 2 - 1))
                 | Arc4 \<Rightarrow> Some ((0, height div 2), (width div 2, 0),
                                  (width div 2 - 1, height div 2 - 1),
                                  (width div 2, py_int (1 / 4 * of_int height)))
                 | No_arc \<Rightarrow> None) of
             None \<Rightarrow> Raised UnboundLocalError buf
           | Some (start, end', c1, c2) \<Rightarrow>
               let (xfunc, yfunc) = cubic_bezier start end' c1 c2 in
               draw_parametrized_curve buf width height thickness_in_pixels xfunc yfunc))"

definition rounded_corner :: "int \<Rightarrow> arc \<Rightarrow> drawing" where
  "rounded_corner level which = supersampled 4 (rounded_corner_raw level which)"

section \<open>GlyphDispatchTable and RenderEntryPoint\<close>

text \<open>
  \<^verbatim>\<open>box_chars: Dict[str, List[Callable]]\<close> maps a character to its recipe, a list of
  drawing routines with their extra arguments bound by \<^verbatim>\<open>functools.partial\<close>; every
  routine is then called as \<^verbatim>\<open>func(buf, width, height)\<close>.  A bound routine is a function
  of the module globals it reads, the buffer and the cell size.  No drawing routine
  assigns a module global (only \<^verbatim>\<open>set_scale\<close> and \<^verbatim>\<open>render_box_char\<close> do), so a routine
  returns an outcome and no new globals.  A character is its code point.
\<close>

type_synonym glyph_table = "nat \<rightharpoonup> drawing list"

text \<open>\<^verbatim>\<open>render_box_char(ch, buf, width, height, dpi)\<close> (lines 712-717): assigns the global
  \<^verbatim>\<open>_dpi\<close>, looks the recipe up (\<^verbatim>\<open>box_chars[ch]\<close> raises KeyError for a missing key) and
  runs its routines in order.  The result is the new globals and the outcome.\<close>

definition render_box_char ::
  "glyph_table \<Rightarrow> globals \<Rightarrow> nat \<Rightarrow> buf \<Rightarrow> int \<Rightarrow> int \<Rightarrow> rat \<Rightarrow> globals \<times> outcome" where
  "render_box_char box_chars g ch buf width height dpi' =
     (let g' = g\<lparr>dpi := dpi'\<rparr> in
      case box_chars ch of
        None \<Rightarrow> (g', Raised KeyError buf)
      | Some recipe \<Rightarrow> (g', for_each recipe (\<lambda>func b. func g' b width height) buf))"

text \<open>The loop of lines 692-697 that enters the sixteen crosses:
  \<^verbatim>\<open>box_chars[chr(ord(start) + i)] = [p(cross, a=a_, b=b_, c=c_, d=d_)]\<close> with \<open>t, f = 1, 3\<close>.\<close>

definition cross_levels :: "(int \<times> int \<times> int \<times> int) list" where
  "cross_levels =
     (let t = 1; f = 3 in
      [(t, t, t, t), (f, t, t, t), (t, f, t, t), (f, f, t, t), (t, t, f, t), (t, t, t, f), (t, t, f, f),
       (f, t, f, t), (t, f, f, t), (f, t, t, f), (t, f, t, f), (f, f, f, t), (f, f, t, f), (f, t, f, f),
       (t, f, f, f), (f, f, f, f)])"

definition cross_family :: "nat \<Rightarrow> glyph_table \<Rightarrow> glyph_table" where
  "cross_family start tbl =
     fold (\<lambda>(i, (a, b, c, d)) m. m(start + i \<mapsto> [\<lambda>g buf width height. cross g buf width height a b c d]))
       (enumerate 0 cross_levels) tbl"

text \<open>Modelled from the spec: the character literal the cross loop starts from, and every
  other key of the table, is a non-ASCII literal whose bytes read \<open>?\<close> in the source file.
  The spec names the first cross, all four arms light, as U+253C (BOX DRAWINGS LIGHT
  VERTICAL AND HORIZONTAL).\<close>

definition cross_start :: nat where
  "cross_start = 0x253C"

text \<open>Render calls made one after the other, each with its own character, buffer, cell
  size and DPI: the globals each call leaves are the globals of the next.\<close>

fun render_calls :: "glyph_table \<Rightarrow> globals \<Rightarrow> (nat \<times> buf \<times> int \<times> int \<times> rat) list \<Rightarrow> globals" where
  "render_calls box_chars g [] = g"
| "render_calls box_chars g ((ch, buf, width, height, dpi') # calls) =
     render_calls box_chars (fst (render_box_char box_chars g ch buf width height dpi')) calls"

text \<open>A routine that never raises KeyError, whatever it is called with.  The drawing
  routines of the module index only the buffer and the scale tuple (IndexError) and
  look nothing up in a dictionary.\<close>

definition never_key_error :: "drawing \<Rightarrow> bool" where
  "never_key_error func = (\<forall>g buf width height b. func g buf width height \<noteq> Raised KeyError b)"

section \<open>Vocabulary of the proofs\<close>

definition paint :: "int set \<Rightarrow> byte \<Rightarrow> buf \<Rightarrow> buf" where
  "paint S v b = map (\<lambda>i. if int i \<in> S then v else b ! i) [0..<length b]"

definition cells :: "int \<Rightarrow> int set \<Rightarrow> int set \<Rightarrow> int set" where
  "cells w X Y = (\<lambda>(x, y). y * w + x) ` (X \<times> Y)"

text \<open>The first column of each hole that \<open>get_holes w (w div 8) n\<close> returns.\<close>

definition hole_starts :: "int \<Rightarrow> int \<Rightarrow> int list" where
  "hole_starts w n =
     (let h = w div 8 in
      if n = 1 then [w div 2 - h div 2]
      else if n = 2 then [(w - 2 * h) div 3, 2 * ((w - 2 * h) div 3) + h]
      else [(w - 3 * h) div 4, 2 * ((w - 3 * h) div 4) + h, 3 * ((w - 3 * h) div 4) + 2 * h])"

text \<open>The sum of the \<open>4 \<times> 4\<close> block of a scratch buffer of width \<open>4 * w\<close> that lies over the
  destination pixel \<open>(x, y)\<close>.\<close>

definition block_sum :: "buf \<Rightarrow> int \<Rightarrow> int \<Rightarrow> int \<Rightarrow> int" where
  "block_sum src w x y =
     (\<Sum>j\<in>{4 * y..<4 * y + 4}. \<Sum>i\<in>{4 * x..<4 * x + 4}. uint (src ! nat (4 * w * j + i)))"

text \<open>An outcome of a routine started on \<open>b\<close> that kept every write inside the first \<open>n\<close>
  bytes: the buffer has its length, every byte from index \<open>n\<close> on is as it was, and
  IndexError was not raised.\<close>

definition stays_inside :: "int \<Rightarrow> buf \<Rightarrow> outcome \<Rightarrow> bool" where
  "stays_inside n b out \<longleftrightarrow>
     length (buffer out) = length b
     \<and> (\<forall>i. n \<le> int i \<and> i < length b \<longrightarrow> buffer out ! i = b ! i)
     \<and> (\<forall>b'. out \<noteq> Raised IndexError b')"

section \<open>Properties\<close>

subsection \<open>Painting: what a loop of constant stores does\<close>

lemma length_paint [simp]: "length (paint S v b) = length b"
  by (simp add: paint_def)

lemma nth_paint: "i < length b \<Longrightarrow> paint S v b ! i = (if int i \<in> S then v else b ! i)"
  by (simp add: paint_def)

lemma paint_empty [simp]: "paint {} v b = b"
  by (simp add: paint_def map_nth)

lemma paint_paint [simp]: "paint T v (paint S v b) = paint (S \<union> T) v b"
  by (rule nth_equalityI) (auto simp: nth_paint)

lemma setitem_paint:
  "0 \<le> i \<Longrightarrow> i < int (length b) \<Longrightarrow> setitem b i v = Returned (paint {i} v b)"
  by (auto simp: setitem_def Let_def nth_paint nth_list_update intro!: nth_equalityI)

lemma for_each_paint:
  assumes "\<And>x b. x \<in> set xs \<Longrightarrow> length b = n \<Longrightarrow> body x b = Returned (paint (S x) v b)"
    and "length b = n"
  shows "for_each xs body b = Returned (paint (\<Union>x\<in>set xs. S x) v b)"
  using assms
proof (induction xs arbitrary: b)
  case Nil
  then show ?case by simp
next
  case (Cons a xs)
  have "body a b = Returned (paint (S a) v b)" using Cons.prems by simp
  moreover have "for_each xs body (paint (S a) v b) = Returned (paint (\<Union>x\<in>set xs. S x) v (paint (S a) v b))"
    using Cons.prems by (intro Cons.IH) simp_all
  ultimately show ?case by (simp add: Un_commute)
qed

lemma set_py_range [simp]: "set (py_range a b) = {a..<b}"
  by (auto simp: py_range_def)

lemma draw_hline_paint:
  assumes t: "thickness g level False = Inr sz"
    and inb: "\<And>x r. x1 \<le> x \<Longrightarrow> x < x2 \<Longrightarrow> y - sz div 2 \<le> r \<Longrightarrow> r < y - sz div 2 + sz \<Longrightarrow>
                0 \<le> r * width + x \<and> r * width + x < int (length buf)"
  shows "draw_hline g buf width x1 x2 y level =
           Returned (paint (cells width {x1..<x2} {y - sz div 2..<y - sz div 2 + sz}) 255 buf)"
proof -
  let ?s = "y - sz div 2"
  have inner: "for_each (py_range x1 x2) (\<lambda>x b. setitem b (r * width + x) 255) b =
                Returned (paint (\<Union>x\<in>{x1..<x2}. {r * width + x}) 255 b)"
    if "r \<in> {?s..<?s + sz}" "length b = length buf" for r b
    using that inb by (subst for_each_paint[where n = "length buf" and S = "\<lambda>x. {r * width + x}" and v = 255])
      (auto intro!: setitem_paint)
  have "for_each (py_range ?s (?s + sz))
            (\<lambda>y b. let offset = y * width in
               for_each (py_range x1 x2) (\<lambda>x b. setitem b (offset + x) 255) b) buf
        = Returned (paint (\<Union>r\<in>{?s..<?s + sz}. \<Union>x\<in>{x1..<x2}. {r * width + x}) 255 buf)"
    by (subst for_each_paint[where n = "length buf" and S = "\<lambda>r. \<Union>x\<in>{x1..<x2}. {r * width + x}" and v = 255])
       (auto simp: inner Let_def)
  moreover have "(\<Union>r\<in>{?s..<?s + sz}. \<Union>x\<in>{x1..<x2}. {r * width + x}) = cells width {x1..<x2} {?s..<?s + sz}"
    by (auto simp: cells_def)
  ultimately show ?thesis by (simp add: draw_hline_def t Let_def)
qed

lemma draw_vline_paint:
  assumes t: "thickness g level True = Inr sz"
    and inb: "\<And>c y. x - sz div 2 \<le> c \<Longrightarrow> c < x - sz div 2 + sz \<Longrightarrow> y1 \<le> y \<Longrightarrow> y < y2 \<Longrightarrow>
                0 \<le> y * width + c \<and> y * width + c < int (length buf)"
  shows "draw_vline g buf width y1 y2 x level =
           Returned (paint (cells width {x - sz div 2..<x - sz div 2 + sz} {y1..<y2}) 255 buf)"
proof -
  let ?s = "x - sz div 2"
  have inner: "for_each (py_range y1 y2) (\<lambda>y b. setitem b (c + y * width) 255) b =
                Returned (paint (\<Union>y\<in>{y1..<y2}. {c + y * width}) 255 b)"
    if "c \<in> {?s..<?s + sz}" "length b = length buf" for c b
    using that inb by (subst for_each_paint[where n = "length buf" and S = "\<lambda>y. {c + y * width}" and v = 255])
      (auto intro!: setitem_paint simp: add.commute)
  have "for_each (py_range ?s (?s + sz))
            (\<lambda>x b. for_each (py_range y1 y2) (\<lambda>y b. setitem b (x + y * width) 255) b) buf
        = Returned (paint (\<Union>c\<in>{?s..<?s + sz}. \<Union>y\<in>{y1..<y2}. {c + y * width}) 255 buf)"
    by (subst for_each_paint[where n = "length buf" and S = "\<lambda>c. \<Union>y\<in>{y1..<y2}. {c + y * width}" and v = 255])
       (auto simp: inner)
  moreover have "(\<Union>c\<in>{?s..<?s + sz}. \<Union>y\<in>{y1..<y2}. {c + y * width}) = cells width {?s..<?s + sz} {y1..<y2}"
    by (auto simp: cells_def add.commute)
  ultimately show ?thesis by (simp add: draw_vline_def t Let_def)
qed

lemma grid_unique:
  fixes w :: int
  assumes "0 \<le> x" "x < w" "0 \<le> x'" "x' < w" "y * w + x = y' * w + x'"
  shows "y = y' \<and> x = x'"
proof -
  have w: "w \<noteq> 0" using assms by auto
  have "(y * w + x) div w = y" "(y' * w + x') div w = y'"
    using assms(1-4) w by (simp_all add: div_pos_pos_trivial)
  then have "y = y'" using assms(5) by metis
  then show ?thesis using assms(5) by simp
qed

lemma cells_iff:
  assumes "0 \<le> x" "x < w" "X \<subseteq> {0..<w}"
  shows "y * w + x \<in> cells w X Y \<longleftrightarrow> x \<in> X \<and> y \<in> Y"
proof
  assume "y * w + x \<in> cells w X Y"
  then obtain x' y' where *: "x' \<in> X" "y' \<in> Y" "y * w + x = y' * w + x'"
    by (auto simp: cells_def)
  then have "0 \<le> x'" "x' < w" using assms(3) by auto
  from grid_unique[OF assms(1,2) this *(3)] * show "x \<in> X \<and> y \<in> Y" by simp
next
  assume "x \<in> X \<and> y \<in> Y"
  then show "y * w + x \<in> cells w X Y" by (auto simp: cells_def)
qed

lemma cell_in_range:
  fixes w :: int
  assumes "0 \<le> x" "x < w" "0 \<le> r" "r < h"
  shows "0 \<le> r * w + x" "r * w + x < w * h"
proof -
  show "0 \<le> r * w + x" using assms by simp
  have "r + 1 \<le> h" using assms by simp
  then have "(r + 1) * w \<le> h * w" using assms by (intro mult_right_mono) auto
  then show "r * w + x < w * h" using assms by (simp add: algebra_simps)
qed

lemma cells_Un:
  "cells w (X \<union> X') Y = cells w X Y \<union> cells w X' Y"
  "cells w X (Y \<union> Y') = cells w X Y \<union> cells w X Y'"
  by (auto simp: cells_def)

lemma and_then_Returned [simp]: "and_then (Returned b) f = f b"
  by (simp add: and_then_def)

subsection \<open>Thickness\<close>

lemma thickness_flag: "thickness g level True = thickness g level False"
  by (simp add: thickness_def)






subsection \<open>Horizontal and vertical bands\<close>

text \<open>
  \<^bold>\<open>C8.\<close>  On a \<open>width \<times> height\<close> buffer and for a band that lies inside it,
  \<open>draw_hline(buf, width, x1, x2, y, level)\<close> writes 255 to exactly the pixels with column in
  \<open>[x1, x2)\<close> and row in \<open>[y - sz div 2, y - sz div 2 + sz)\<close>, where \<open>sz = thickness(level)\<close> and
  \<open>div\<close> is floor division, and leaves every other pixel unchanged; \<open>draw_vline\<close> is the
  transpose.
\<close>

theorem draw_line_bands:
  assumes t: "thickness g level False = Inr sz"
    and len: "length buf = nat (width * height)"
  shows "(0 \<le> x1 \<and> x2 \<le> width \<and> 0 \<le> y - sz div 2 \<and> y - sz div 2 + sz \<le> height \<longrightarrow>
           (\<exists>buf'. draw_hline g buf width x1 x2 y level = Returned buf' \<and> length buf' = length buf
              \<and> (\<forall>c r. 0 \<le> c \<and> c < width \<and> 0 \<le> r \<and> r < height \<longrightarrow>
                    buf' ! nat (r * width + c) =
                      (if x1 \<le> c \<and> c < x2 \<and> y - sz div 2 \<le> r \<and> r < y - sz div 2 + sz
                       then 255 else buf ! nat (r * width + c)))))
       \<and> (0 \<le> y1 \<and> y2 \<le> height \<and> 0 \<le> x - sz div 2 \<and> x - sz div 2 + sz \<le> width \<longrightarrow>
           (\<exists>buf'. draw_vline g buf width y1 y2 x level = Returned buf' \<and> length buf' = length buf
              \<and> (\<forall>c r. 0 \<le> c \<and> c < width \<and> 0 \<le> r \<and> r < height \<longrightarrow>
                    buf' ! nat (r * width + c) =
                      (if y1 \<le> r \<and> r < y2 \<and> x - sz div 2 \<le> c \<and> c < x - sz div 2 + sz
                       then 255 else buf ! nat (r * width + c)))))"
proof (intro conjI impI)
  assume a: "0 \<le> x1 \<and> x2 \<le> width \<and> 0 \<le> y - sz div 2 \<and> y - sz div 2 + sz \<le> height"
  let ?S = "cells width {x1..<x2} {y - sz div 2..<y - sz div 2 + sz}"
  have inb: "0 \<le> r * width + c \<and> r * width + c < int (length buf)"
    if "x1 \<le> c" "c < x2" "y - sz div 2 \<le> r" "r < y - sz div 2 + sz" for c r
  proof -
    have "0 \<le> r * width + c" "r * width + c < width * height"
      using that a by (auto intro!: cell_in_range)
    then show ?thesis using len by simp
  qed
  have d: "draw_hline g buf width x1 x2 y level = Returned (paint ?S 255 buf)"
    using t inb by (rule draw_hline_paint)
  have "paint ?S 255 buf ! nat (r * width + c) =
          (if x1 \<le> c \<and> c < x2 \<and> y - sz div 2 \<le> r \<and> r < y - sz div 2 + sz
           then 255 else buf ! nat (r * width + c))"
    if "0 \<le> c \<and> c < width \<and> 0 \<le> r \<and> r < height" for c r
  proof -
    have "0 \<le> r * width + c" "r * width + c < width * height"
      using that by (auto intro!: cell_in_range)
    moreover have "r * width + c \<in> ?S \<longleftrightarrow> c \<in> {x1..<x2} \<and> r \<in> {y - sz div 2..<y - sz div 2 + sz}"
      using that a by (intro cells_iff) auto
    ultimately show ?thesis using len by (simp add: nth_paint)
  qed
  then show "\<exists>buf'. draw_hline g buf width x1 x2 y level = Returned buf' \<and> length buf' = length buf
              \<and> (\<forall>c r. 0 \<le> c \<and> c < width \<and> 0 \<le> r \<and> r < height \<longrightarrow>
                    buf' ! nat (r * width + c) =
                      (if x1 \<le> c \<and> c < x2 \<and> y - sz div 2 \<le> r \<and> r < y - sz div 2 + sz
                       then 255 else buf ! nat (r * width + c)))"
    using d by simp
next
  assume a: "0 \<le> y1 \<and> y2 \<le> height \<and> 0 \<le> x - sz div 2 \<and> x - sz div 2 + sz \<le> width"
  let ?S = "cells width {x - sz div 2..<x - sz div 2 + sz} {y1..<y2}"
  have t': "thickness g level True = Inr sz" using t by (simp add: thickness_flag)
  have inb: "0 \<le> r * width + c \<and> r * width + c < int (length buf)"
    if "x - sz div 2 \<le> c" "c < x - sz div 2 + sz" "y1 \<le> r" "r < y2" for c r
  proof -
    have "0 \<le> r * width + c" "r * width + c < width * height"
      using that a by (auto intro!: cell_in_range)
    then show ?thesis using len by simp
  qed
  have d: "draw_vline g buf width y1 y2 x level = Returned (paint ?S 255 buf)"
    using t' inb by (rule draw_vline_paint)
  have "paint ?S 255 buf ! nat (r * width + c) =
          (if y1 \<le> r \<and> r < y2 \<and> x - sz div 2 \<le> c \<and> c < x - sz div 2 + sz
           then 255 else buf ! nat (r * width + c))"
    if "0 \<le> c \<and> c < width \<and> 0 \<le> r \<and> r < height" for c r
  proof -
    have "0 \<le> r * width + c" "r * width + c < width * height"
      using that by (auto intro!: cell_in_range)
    moreover have "r * width + c \<in> ?S \<longleftrightarrow> c \<in> {x - sz div 2..<x - sz div 2 + sz} \<and> r \<in> {y1..<y2}"
      using that a by (intro cells_iff) auto
    ultimately show ?thesis using len by (auto simp add: nth_paint)
  qed
  then show "\<exists>buf'. draw_vline g buf width y1 y2 x level = Returned buf' \<and> length buf' = length buf
              \<and> (\<forall>c r. 0 \<le> c \<and> c < width \<and> 0 \<le> r \<and> r < height \<longrightarrow>
                    buf' ! nat (r * width + c) =
                      (if y1 \<le> r \<and> r < y2 \<and> x - sz div 2 \<le> c \<and> c < x - sz div 2 + sz
                       then 255 else buf ! nat (r * width + c)))"
    using d by simp
qed

theorem draw_line_bands_witness:
  "thickness initial_globals 1 False = Inr 2 \<and> length (replicate 16 (0::byte)) = nat (4 * 4)
   \<and> ((0::int) \<le> 0 \<and> (2::int) \<le> 4 \<and> (0::int) \<le> 2 - 2 div 2 \<and> (2::int) - 2 div 2 + 2 \<le> 4)
   \<and> (\<exists>buf'. draw_hline initial_globals (replicate 16 0) 4 0 2 2 1 = Returned buf'
          \<and> length buf' = 16 \<and> buf' ! 5 = 255 \<and> buf' ! 8 = 255 \<and> buf' ! 2 = 0 \<and> buf' ! 6 = 0 \<and> buf' ! 12 = 0)
   \<and> (\<exists>buf'. draw_vline initial_globals (replicate 16 0) 4 0 4 2 1 = Returned buf'
          \<and> length buf' = 16 \<and> buf' ! 1 = 255 \<and> buf' ! 14 = 255 \<and> buf' ! 0 = 0 \<and> buf' ! 7 = 0)"
proof -
  have t: "thickness initial_globals 1 False = Inr 2"
    by (simp add: thickness_def scale_item_def initial_globals_def ceiling_eq_iff)
  have len: "length (replicate 16 (0::byte)) = nat (4 * 4)" by simp
  have hh: "(0::int) \<le> 0 \<and> (2::int) \<le> 4 \<and> (0::int) \<le> 2 - 2 div 2 \<and> (2::int) - 2 div 2 + 2 \<le> 4"
    by simp
  have hv: "(0::int) \<le> 0 \<and> (4::int) \<le> 4 \<and> (0::int) \<le> 2 - 2 div 2 \<and> (2::int) - 2 div 2 + 2 \<le> 4"
    by simp
  note th = draw_line_bands[OF t len, of 0 2 2 0 4 2]
  from th hh obtain bh where bh: "draw_hline initial_globals (replicate 16 0) 4 0 2 2 1 = Returned bh"
    "length bh = length (replicate 16 (0::byte))"
    "\<And>c r. 0 \<le> c \<and> c < 4 \<and> 0 \<le> r \<and> r < 4 \<Longrightarrow>
       bh ! nat (r * 4 + c) = (if 0 \<le> c \<and> c < 2 \<and> 2 - 2 div 2 \<le> r \<and> r < 2 - 2 div 2 + 2
                               then 255 else replicate 16 0 ! nat (r * 4 + c))"
    by blast
  from th hv obtain bv where bv: "draw_vline initial_globals (replicate 16 0) 4 0 4 2 1 = Returned bv"
    "length bv = length (replicate 16 (0::byte))"
    "\<And>c r. 0 \<le> c \<and> c < 4 \<and> 0 \<le> r \<and> r < 4 \<Longrightarrow>
       bv ! nat (r * 4 + c) = (if 0 \<le> r \<and> r < 4 \<and> 2 - 2 div 2 \<le> c \<and> c < 2 - 2 div 2 + 2
                               then 255 else replicate 16 0 ! nat (r * 4 + c))"
    by blast
  have "bh ! 5 = 255" "bh ! 8 = 255" "bh ! 2 = 0" "bh ! 6 = 0" "bh ! 12 = 0"
    using bh(3)[of 1 1] bh(3)[of 0 2] bh(3)[of 2 0] bh(3)[of 2 1] bh(3)[of 0 3] by simp_all
  moreover have "bv ! 1 = 255" "bv ! 14 = 255" "bv ! 0 = 0" "bv ! 7 = 0"
    using bv(3)[of 1 0] bv(3)[of 2 3] bv(3)[of 0 0] bv(3)[of 3 1] by simp_all
  ultimately show ?thesis using t len hh bh(1,2) bv(1,2) by simp
qed

subsection \<open>The full cross\<close>

lemma cross_family_start:
  "cross_family start tbl start = Some [\<lambda>g buf width height. cross g buf width height 1 1 1 1]"
  by (simp add: cross_family_def cross_levels_def enumerate_eq_zip upt_rec)

lemma cross_paint_16:
  assumes t: "thickness g 1 True = Inr 2" and len: "length buf = 256"
  shows "cross g buf 16 16 1 1 1 1 =
           Returned (paint (cells 16 {0..<16} {7..<9} \<union> cells 16 {7..<9} {0..<16}) 255 buf)"
proof -
  have tf: "thickness g 1 False = Inr 2" using t by (simp add: thickness_flag)
  have h: "draw_hline g b 16 x1 x2 8 1 = Returned (paint (cells 16 {x1..<x2} {7..<9}) 255 b)"
    if "length b = 256" "0 \<le> x1" "x2 \<le> 16" for b x1 x2
    using draw_hline_paint[OF tf, of x1 x2 8 16 b] that by simp
  have v: "draw_vline g b 16 y1 y2 8 1 = Returned (paint (cells 16 {7..<9} {y1..<y2}) 255 b)"
    if "length b = 256" "0 \<le> y1" "y2 \<le> 16" for b y1 y2
    using draw_vline_paint[OF t, of 8 y1 y2 16 b] that by simp
  have i: "{0..<16} = {0..<8} \<union> {8..<(16::int)}" by auto
  have u1: "cells 16 {0..<8} {7..<9} \<union> cells 16 {8..<16} {7..<9} = cells 16 {0..<16} {7..<9}"
    by (subst i) (simp add: cells_Un)
  have u2: "cells 16 {7..<9} {0..<8} \<union> cells 16 {7..<9} {8..<16} = cells 16 {7..<9} {0..<16}"
    by (subst i) (simp add: cells_Un)
  show ?thesis
    using len by (simp add: cross_def half_hline_def half_vline_def h v u1 u2 Un_assoc)
qed

text \<open>
  \<^bold>\<open>C1.\<close>  Rendering U+253C at 96 DPI into a zero buffer of \<open>16 \<times> 16\<close>, with the module's
  scale table and any dispatch table that holds the entries of the cross loop: with
  \<open>t = thickness(1)\<close>, every pixel of the rows \<open>[8 - t div 2, 8 - t div 2 + t)\<close> and of the columns
  \<open>[8 - t div 2, 8 - t div 2 + t)\<close> is 255, every other pixel is 0.
\<close>

theorem render_cross_16:
  assumes tbl: "cross_family cross_start Map.empty \<subseteq>\<^sub>m box_chars"
    and sc: "scale g = scale initial_globals"
  shows "\<exists>out t. render_box_char box_chars g cross_start (replicate (16 * 16) 0) 16 16 96
                   = (g\<lparr>dpi := 96\<rparr>, Returned out)
           \<and> thickness (g\<lparr>dpi := 96\<rparr>) 1 True = Inr t \<and> length out = 16 * 16
           \<and> (\<forall>x y. 0 \<le> x \<and> x < 16 \<and> 0 \<le> y \<and> y < 16 \<longrightarrow>
                 out ! nat (y * 16 + x) =
                   (if (8 - t div 2 \<le> y \<and> y < 8 - t div 2 + t) \<or> (8 - t div 2 \<le> x \<and> x < 8 - t div 2 + t)
                    then 255 else 0))"
proof -
  let ?g = "g\<lparr>dpi := 96\<rparr>"
  let ?S = "cells 16 {0..<16} {7..<9} \<union> cells 16 {7..<9} {0..<16}"
  let ?out = "paint ?S 255 (replicate 256 0)"
  have "cross_start \<in> dom (cross_family cross_start Map.empty)"
    by (simp add: cross_family_start domIff)
  with tbl have "box_chars cross_start = cross_family cross_start Map.empty cross_start"
    by (simp add: map_le_def)
  then have recipe: "box_chars cross_start = Some [\<lambda>g buf width height. cross g buf width height 1 1 1 1]"
    by (simp add: cross_family_start)
  have "scale ?g = scale initial_globals" using sc by simp
  then have t: "thickness ?g 1 True = Inr 2"
    by (simp add: thickness_def scale_item_def initial_globals_def ceiling_eq_iff)
  have c: "cross ?g (replicate 256 0) 16 16 1 1 1 1 = Returned ?out"
    using t by (rule cross_paint_16) simp
  have r: "render_box_char box_chars g cross_start (replicate (16 * 16) 0) 16 16 96 = (?g, Returned ?out)"
    by (simp add: render_box_char_def recipe c Let_def)
  have px: "?out ! nat (y * 16 + x) = (if (7 \<le> y \<and> y < 9) \<or> (7 \<le> x \<and> x < 9) then 255 else 0)"
    if "0 \<le> x \<and> x < 16 \<and> 0 \<le> y \<and> y < 16" for x y :: int
  proof -
    have "0 \<le> y * 16 + x" "y * 16 + x < 256" using that by auto
    moreover have "y * 16 + x \<in> cells 16 {0..<16} {7..<9} \<longleftrightarrow> x \<in> {0..<16} \<and> y \<in> {7..<9}"
      using that by (intro cells_iff) auto
    moreover have "y * 16 + x \<in> cells 16 {7..<9} {0..<16} \<longleftrightarrow> x \<in> {7..<9} \<and> y \<in> {0..<16}"
      using that by (intro cells_iff) auto
    ultimately show ?thesis using that by (auto simp: nth_paint)
  qed
  show ?thesis
    apply (rule exI[of _ ?out], rule exI[of _ 2])
    using r t px by (simp)
qed

theorem render_cross_16_witness:
  "cross_family cross_start Map.empty \<subseteq>\<^sub>m cross_family cross_start Map.empty
   \<and> scale initial_globals = scale initial_globals
   \<and> (\<exists>out. render_box_char (cross_family cross_start Map.empty) initial_globals cross_start
                 (replicate (16 * 16) 0) 16 16 96 = (initial_globals\<lparr>dpi := 96\<rparr>, Returned out)
          \<and> length out = 256
          \<and> out ! nat (7 * 16 + 0) = 255 \<and> out ! nat (8 * 16 + 15) = 255
          \<and> out ! nat (0 * 16 + 7) = 255 \<and> out ! nat (15 * 16 + 8) = 255
          \<and> out ! nat (6 * 16 + 6) = 0 \<and> out ! nat (9 * 16 + 6) = 0
          \<and> out ! nat (6 * 16 + 9) = 0 \<and> out ! nat (9 * 16 + 9) = 0)"
proof -
  have m: "cross_family cross_start Map.empty \<subseteq>\<^sub>m cross_family cross_start Map.empty"
    by (rule map_le_refl)
  from render_cross_16[OF m refl]
  obtain out t where o:
    "render_box_char (cross_family cross_start Map.empty) initial_globals cross_start
       (replicate (16 * 16) 0) 16 16 96 = (initial_globals\<lparr>dpi := 96\<rparr>, Returned out)"
    "thickness (initial_globals\<lparr>dpi := 96\<rparr>) 1 True = Inr t" "length out = 16 * 16"
    "\<And>x y. 0 \<le> x \<and> x < 16 \<and> 0 \<le> y \<and> y < 16 \<Longrightarrow>
       out ! nat (y * 16 + x) =
         (if (8 - t div 2 \<le> y \<and> y < 8 - t div 2 + t) \<or> (8 - t div 2 \<le> x \<and> x < 8 - t div 2 + t)
          then 255 else 0)"
    by blast
  have "thickness (initial_globals\<lparr>dpi := 96\<rparr>) 1 True = Inr 2"
    by (simp add: thickness_def scale_item_def initial_globals_def ceiling_eq_iff)
  with o(2) have t: "t = 2" by simp
  have "out ! nat (7 * 16 + 0) = 255" "out ! nat (8 * 16 + 15) = 255"
    "out ! nat (0 * 16 + 7) = 255" "out ! nat (15 * 16 + 8) = 255"
    "out ! nat (6 * 16 + 6) = 0" "out ! nat (9 * 16 + 6) = 0"
    "out ! nat (6 * 16 + 9) = 0" "out ! nat (9 * 16 + 9) = 0"
    using o(4)[of 0 7] o(4)[of 15 8] o(4)[of 7 0] o(4)[of 8 15]
      o(4)[of 6 6] o(4)[of 6 9] o(4)[of 9 6] o(4)[of 9 9] by (simp_all add: t)
  with m o(1,3) show ?thesis by auto
qed

subsection \<open>Broken lines\<close>

lemma hline_paint:
  assumes t: "thickness g level True = Inr sz"
    and len: "length buf = nat (width * height)"
    and w: "0 \<le> width"
    and band: "0 \<le> height div 2 - sz div 2" "height div 2 - sz div 2 + sz \<le> height"
  shows "hline g buf width height level =
           Returned (paint (cells width {0..<width} {height div 2 - sz div 2..<height div 2 - sz div 2 + sz}) 255 buf)"
proof -
  let ?Y = "{height div 2 - sz div 2..<height div 2 - sz div 2 + sz}"
  have tf: "thickness g level False = Inr sz" using t by (simp add: thickness_flag)
  have h: "draw_hline g b width x1 x2 (height div 2) level = Returned (paint (cells width {x1..<x2} ?Y) 255 b)"
    if "length b = length buf" "0 \<le> x1" "x2 \<le> width" for b x1 x2
  proof (rule draw_hline_paint[OF tf])
    fix x r assume "x1 \<le> x" "x < x2" "height div 2 - sz div 2 \<le> r" "r < height div 2 - sz div 2 + sz"
    then have "0 \<le> r * width + x" "r * width + x < width * height"
      using that band by (auto intro!: cell_in_range)
    then show "0 \<le> r * width + x \<and> r * width + x < int (length b)" using that len by simp
  qed
  have i: "{0..<width} = {0..<width div 2} \<union> {width div 2..<width}" using w by auto
  have "0 \<le> width div 2" "width div 2 \<le> width" using w by auto
  then show ?thesis
    by (subst i) (simp add: hline_def half_hline_def h cells_Un)
qed

lemma add_hholes_paint:
  assumes t: "thickness g level True = Inr sz"
    and holes: "get_holes width (width div 8) num = Inr holes"
    and len: "length buf = nat (width * height)"
    and band: "0 \<le> height div 2 - sz div 2" "height div 2 - sz div 2 + sz \<le> height"
    and inw: "\<And>x. x \<in> \<Union> (set ` set holes) \<Longrightarrow> 0 \<le> x \<and> x < width"
  shows "add_hholes g buf width height level num =
           Returned (paint (cells width (\<Union> (set ` set holes)) {height div 2 - sz div 2..<height div 2 - sz div 2 + sz}) 0 buf)"
proof -
  let ?Y = "{height div 2 - sz div 2..<height div 2 - sz div 2 + sz}"
  have inb: "0 \<le> r * width + x \<and> r * width + x < int (length b)"
    if "x \<in> \<Union> (set ` set holes)" "r \<in> ?Y" "length b = length buf" for x r b
  proof -
    have "0 \<le> r * width + x" "r * width + x < width * height"
      using that inw[of x] band by (auto intro!: cell_in_range)
    then show ?thesis using that len by simp
  qed
  have l1: "for_each hole (\<lambda>x b. setitem b (r * width + x) 0) b
              = Returned (paint (\<Union>x\<in>set hole. {r * width + x}) 0 b)"
    if "hole \<in> set holes" "r \<in> ?Y" "length b = length buf" for hole r b
    using that inb
    by (subst for_each_paint[where n = "length buf" and S = "\<lambda>x. {r * width + x}" and v = 0])
      (auto intro!: setitem_paint)
  have l2: "for_each holes (\<lambda>hole b. for_each hole (\<lambda>x b. setitem b (r * width + x) 0) b) b
              = Returned (paint (\<Union>hole\<in>set holes. \<Union>x\<in>set hole. {r * width + x}) 0 b)"
    if "r \<in> ?Y" "length b = length buf" for r b
    using that
    by (subst for_each_paint[where n = "length buf" and S = "\<lambda>hole. \<Union>x\<in>set hole. {r * width + x}" and v = 0])
      (auto simp: l1)
  have l3: "for_each (py_range (height div 2 - sz div 2) (height div 2 - sz div 2 + sz))
                 (\<lambda>y b. let offset = y * width in
                    for_each holes (\<lambda>hole b. for_each hole (\<lambda>x b. setitem b (offset + x) 0) b) b)
                 buf
              = Returned (paint (\<Union>r\<in>?Y. \<Union>hole\<in>set holes. \<Union>x\<in>set hole. {r * width + x}) 0 buf)"
    by (subst for_each_paint[where n = "length buf"
          and S = "\<lambda>r. \<Union>hole\<in>set holes. \<Union>x\<in>set hole. {r * width + x}" and v = 0])
      (auto simp: l2 Let_def)
  have "(\<Union>r\<in>?Y. \<Union>hole\<in>set holes. \<Union>x\<in>set hole. {r * width + x}) = cells width (\<Union> (set ` set holes)) ?Y"
    by (auto simp: cells_def)
  with l3 show ?thesis
    by (simp add: add_hholes_def t holes hole_factor_def Let_def)
qed

lemma get_holes_starts:
  assumes "n \<in> {1, 2, 3}"
  shows "get_holes w (w div 8) n = Inr (map (\<lambda>a. py_range a (a + w div 8)) (hole_starts w n))"
  using assms by (auto simp: get_holes_def hole_starts_def Let_def algebra_simps)

lemma hole_starts_facts:
  assumes w: "8 \<le> w" and n: "n \<in> {1, 2, 3}"
  shows "length (hole_starts w n) = nat n"
    and "\<forall>a\<in>set (hole_starts w n). 0 \<le> a \<and> a + w div 8 \<le> w"
    and "\<forall>k. Suc k < length (hole_starts w n) \<longrightarrow>
           hole_starts w n ! k + w div 8 < hole_starts w n ! Suc k"
    and "1 \<le> w div 8"
proof -
  define h where "h = w div 8"
  define m where "m = w div 2"
  define p where "p = (w - 2 * h) div 3"
  define q where "q = (w - 3 * h) div 4"
  define h2 where "h2 = h div 2"
  have h: "1 \<le> h" "8 * h \<le> w" unfolding h_def using w by simp_all
  have m: "2 * m \<le> w" "w < 2 * m + 2" unfolding m_def by simp_all
  have p: "3 * p \<le> w - 2 * h" "w - 2 * h < 3 * p + 3" unfolding p_def by simp_all
  have q: "4 * q \<le> w - 3 * h" "w - 3 * h < 4 * q + 4" unfolding q_def by simp_all
  have h2: "2 * h2 \<le> h" "h < 2 * h2 + 2" unfolding h2_def by simp_all
  have hs: "hole_starts w n =
      (if n = 1 then [m - h2] else if n = 2 then [p, 2 * p + h] else [q, 2 * q + h, 3 * q + 2 * h])"
    by (simp add: hole_starts_def Let_def h_def m_def p_def q_def h2_def)
  show "length (hole_starts w n) = nat n" using n by (auto simp: hs)
  show "1 \<le> w div 8" using h by (simp add: h_def)
  have "\<forall>a\<in>set (hole_starts w n). 0 \<le> a \<and> a + h \<le> w"
    using n h m p q h2 by (auto simp: hs)
  then show "\<forall>a\<in>set (hole_starts w n). 0 \<le> a \<and> a + w div 8 \<le> w" by (simp add: h_def)
  have "\<forall>k. Suc k < length (hole_starts w n) \<longrightarrow> hole_starts w n ! k + h < hole_starts w n ! Suc k"
    using n h p q by (auto simp: hs less_Suc_eq)
  then show "\<forall>k. Suc k < length (hole_starts w n) \<longrightarrow>
           hole_starts w n ! k + w div 8 < hole_starts w n ! Suc k" by (simp add: h_def)
qed

lemma band_inside:
  fixes sz height :: int
  assumes "sz \<le> height"
  shows "0 \<le> height div 2 - sz div 2" "height div 2 - sz div 2 + sz \<le> height"
proof -
  define a where "a = height div 2"
  define b where "b = sz div 2"
  have a: "2 * a \<le> height" "height < 2 * a + 2" unfolding a_def by simp_all
  have b: "2 * b \<le> sz" "sz < 2 * b + 2" unfolding b_def by simp_all
  show "0 \<le> height div 2 - sz div 2" using a b assms unfolding a_def[symmetric] b_def[symmetric] by linarith
  show "height div 2 - sz div 2 + sz \<le> height"
    using a b assms unfolding a_def[symmetric] b_def[symmetric] by linarith
qed

lemma hholes_paint:
  assumes t: "thickness g level True = Inr sz" and sz: "sz \<le> height"
    and w: "8 \<le> width" and n: "n \<in> {1, 2, 3}"
    and len: "length buf = nat (width * height)"
  shows "hholes g buf width height level n =
           Returned (paint (cells width (\<Union>a\<in>set (hole_starts width n). {a..<a + width div 8})
                              {height div 2 - sz div 2..<height div 2 - sz div 2 + sz}) 0
                    (paint (cells width {0..<width}
                              {height div 2 - sz div 2..<height div 2 - sz div 2 + sz}) 255 buf))"
proof -
  let ?Y = "{height div 2 - sz div 2..<height div 2 - sz div 2 + sz}"
  let ?Z = "\<Union>a\<in>set (hole_starts width n). {a..<a + width div 8}"
  note band = band_inside[OF sz]
  have w0: "0 \<le> width" using w by simp
  have h: "hline g buf width height level = Returned (paint (cells width {0..<width} ?Y) 255 buf)"
    using t len w0 band by (rule hline_paint)
  let ?holes = "map (\<lambda>a. py_range a (a + width div 8)) (hole_starts width n)"
  have u: "\<Union> (set ` set ?holes) = ?Z"
    by auto
  have inw: "0 \<le> x \<and> x < width" if "x \<in> \<Union> (set ` set ?holes)" for x
  proof -
    from that obtain a where a: "a \<in> set (hole_starts width n)" "a \<le> x" "x < a + width div 8"
      unfolding u by auto
    from hole_starts_facts(2)[OF w n] a(1) have "0 \<le> a" "a + width div 8 \<le> width" by auto
    with a show ?thesis by linarith
  qed
  have a: "add_hholes g b width height level n = Returned (paint (cells width ?Z ?Y) 0 b)"
    if "length b = nat (width * height)" for b
    using add_hholes_paint[OF t get_holes_starts[OF n] that band inw] unfolding u by simp
  have "length (paint (cells width {0..<width} ?Y) 255 buf) = nat (width * height)"
    using len by simp
  from a[OF this] show ?thesis
    by (simp only: hholes_def h and_then_Returned)
qed

lemma hole_starts_symmetric:
  assumes w: "8 \<le> w"
    and c: "(n = 1 \<and> even w \<and> even (w div 8)) \<or> (n = 3 \<and> 4 dvd w - 3 * (w div 8))"
  shows "(\<exists>a\<in>set (hole_starts w n). a \<le> x \<and> x < a + w div 8) \<longleftrightarrow>
         (\<exists>a\<in>set (hole_starts w n). a \<le> w - 1 - x \<and> w - 1 - x < a + w div 8)"
  using c
proof
  assume a: "n = 1 \<and> even w \<and> even (w div 8)"
  then obtain m h2 where m: "w = 2 * m" and h2: "w div 8 = 2 * h2" by (auto elim!: evenE)
  have "w div 2 = m" "w div 8 div 2 = h2" using m h2 by simp_all
  then have hs: "hole_starts w n = [m - h2]" using a by (simp add: hole_starts_def Let_def)
  have "(\<exists>a\<in>set [m - h2]. a \<le> x \<and> x < a + 2 * h2) \<longleftrightarrow>
        (\<exists>a\<in>set [m - h2]. a \<le> w - 1 - x \<and> w - 1 - x < a + 2 * h2)"
    using m by auto
  then show ?thesis by (simp only: hs h2)
next
  assume a: "n = 3 \<and> 4 dvd w - 3 * (w div 8)"
  then obtain q where q: "w - 3 * (w div 8) = 4 * q" by (auto elim!: dvdE)
  define h where "h = w div 8"
  have "(w - 3 * (w div 8)) div 4 = q" using q by simp
  then have hs: "hole_starts w n = [q, 2 * q + h, 3 * q + 2 * h]"
    using a by (simp add: hole_starts_def Let_def h_def)
  have w': "w = 4 * q + 3 * h" using q by (simp add: h_def)
  have "(\<exists>a\<in>set [q, 2 * q + h, 3 * q + 2 * h]. a \<le> x \<and> x < a + h) \<longleftrightarrow>
        (\<exists>a\<in>set [q, 2 * q + h, 3 * q + 2 * h]. a \<le> w - 1 - x \<and> w - 1 - x < a + h)"
    using w' by auto
  then show ?thesis by (simp only: hs h_def)
qed

text \<open>
  \<^bold>\<open>C4\<close> (as amended).  For every width of at least 8, every height that holds the band
  (\<open>thickness(level) \<le> height\<close>) and every \<open>n\<close> in \<open>{1,2,3}\<close>, \<open>hholes\<close> (\<open>hline\<close>, then
  \<open>add_hholes\<close> with \<open>num = n\<close>) on a zero buffer leaves, in every row of the band, exactly
  \<open>n\<close> runs of zeroed columns: the holes of \<open>get_holes\<close>, each \<open>width div 8\<close> (floor) columns
  wide and at least one wide, inside the cell, and each separated from the next by at
  least one filled column; every other pixel of the band is 255 and every pixel outside
  the band is 0.  The zeroed columns are symmetric about the horizontal centre
  (\<open>x \<mapsto> width - 1 - x\<close>) for \<open>n = 1\<close> when \<open>width\<close> and \<open>width div 8\<close> are even, and for
  \<open>n = 3\<close> when 4 divides \<open>width - 3 * (width div 8)\<close>.
\<close>

theorem hholes_runs:
  assumes t: "thickness g level True = Inr sz" and sz: "sz \<le> height"
    and w: "8 \<le> width" and n: "n \<in> {1, 2, 3}"
  shows "\<exists>out starts.
      hholes g (replicate (nat (width * height)) 0) width height level n = Returned out
    \<and> get_holes width (width div 8) n = Inr (map (\<lambda>a. py_range a (a + width div 8)) starts)
    \<and> length out = nat (width * height) \<and> length starts = nat n \<and> 1 \<le> width div 8
    \<and> (\<forall>a\<in>set starts. 0 \<le> a \<and> a + width div 8 \<le> width)
    \<and> (\<forall>k. Suc k < length starts \<longrightarrow> starts ! k + width div 8 < starts ! Suc k)
    \<and> (\<forall>x y. 0 \<le> x \<and> x < width \<and> 0 \<le> y \<and> y < height \<longrightarrow>
          out ! nat (y * width + x) =
            (if height div 2 - sz div 2 \<le> y \<and> y < height div 2 - sz div 2 + sz
                \<and> \<not> (\<exists>a\<in>set starts. a \<le> x \<and> x < a + width div 8)
             then 255 else 0))
    \<and> ((n = 1 \<and> even width \<and> even (width div 8)) \<or> (n = 3 \<and> 4 dvd width - 3 * (width div 8)) \<longrightarrow>
          (\<forall>x. (\<exists>a\<in>set starts. a \<le> x \<and> x < a + width div 8) \<longleftrightarrow>
                (\<exists>a\<in>set starts. a \<le> width - 1 - x \<and> width - 1 - x < a + width div 8)))"
proof -
  let ?Y = "{height div 2 - sz div 2..<height div 2 - sz div 2 + sz}"
  let ?st = "hole_starts width n"
  let ?Z = "\<Union>a\<in>set ?st. {a..<a + width div 8}"
  let ?zeros = "replicate (nat (width * height)) (0::byte)"
  let ?out = "paint (cells width ?Z ?Y) 0 (paint (cells width {0..<width} ?Y) 255 ?zeros)"
  have r: "hholes g ?zeros width height level n = Returned ?out"
    using t sz w n by (rule hholes_paint) simp
  note f = hole_starts_facts[OF w n]
  have Z: "?Z \<subseteq> {0..<width}" using f(2) by fastforce
  have px: "?out ! nat (y * width + x) =
            (if height div 2 - sz div 2 \<le> y \<and> y < height div 2 - sz div 2 + sz
                \<and> \<not> (\<exists>a\<in>set ?st. a \<le> x \<and> x < a + width div 8)
             then 255 else 0)"
    if "0 \<le> x \<and> x < width \<and> 0 \<le> y \<and> y < height" for x y
  proof -
    have i: "0 \<le> y * width + x" "y * width + x < width * height"
      using that by (auto intro!: cell_in_range)
    have 1: "y * width + x \<in> cells width ?Z ?Y \<longleftrightarrow> x \<in> ?Z \<and> y \<in> ?Y"
      using that Z by (intro cells_iff) auto
    have 2: "y * width + x \<in> cells width {0..<width} ?Y \<longleftrightarrow> x \<in> {0..<width} \<and> y \<in> ?Y"
      using that by (intro cells_iff) auto
    have "?out ! nat (y * width + x) =
            (if y * width + x \<in> cells width ?Z ?Y then 0
             else if y * width + x \<in> cells width {0..<width} ?Y then 255 else 0)"
      using i by (simp add: nth_paint)
    also have "\<dots> = (if x \<in> ?Z \<and> y \<in> ?Y then 0 else if y \<in> ?Y then 255 else 0)"
      unfolding 1 2 using that by simp
    finally show ?thesis by auto
  qed
  have sym: "(\<exists>a\<in>set ?st. a \<le> x \<and> x < a + width div 8) \<longleftrightarrow>
             (\<exists>a\<in>set ?st. a \<le> width - 1 - x \<and> width - 1 - x < a + width div 8)"
    if "(n = 1 \<and> even width \<and> even (width div 8)) \<or> (n = 3 \<and> 4 dvd width - 3 * (width div 8))" for x
    using w that by (rule hole_starts_symmetric)
  show ?thesis
    apply (rule exI[of _ ?out], rule exI[of _ ?st])
    apply (intro conjI)
            apply (rule r)
           apply (rule get_holes_starts[OF n])
          apply simp
         apply (rule f(1))
        apply (rule f(4))
       apply (rule f(2))
      apply (rule f(3))
     apply (intro allI impI, erule px)
    apply (intro allI impI, erule sym)
    done
qed

lemma thickness_initial_1: "thickness initial_globals 1 h = Inr 2"
  by (simp add: thickness_def scale_item_def initial_globals_def ceiling_eq_iff)

lemma upto_2: "[0..(1::int)] = [0, 1]" "[1..(1::int)] = [1]" "[0..(0::int)] = [0]"
  by (simp_all add: upto.simps)

text \<open>
  The claim as stated fails: at width 2 the hole is empty and no column of the band is
  zeroed; at width 16 with three holes column 2 is zeroed and its mirror image, column
  13, is not; at width 8 with one hole column 4 is zeroed and its mirror image, column
  3, is not.
\<close>

theorem hholes_counterexample:
  "hholes initial_globals (replicate 4 0) 2 2 1 1 = Returned [255, 255, 255, 255]
   \<and> buffer (hholes initial_globals (replicate 32 0) 16 2 1 3) ! 2 = 0
   \<and> buffer (hholes initial_globals (replicate 32 0) 16 2 1 3) ! 13 = 255
   \<and> buffer (hholes initial_globals (replicate 16 0) 8 2 1 1) ! 4 = 0
   \<and> buffer (hholes initial_globals (replicate 16 0) 8 2 1 1) ! 3 = 255"
proof -
  have a: "hholes initial_globals (replicate 4 0) 2 2 1 1 = Returned [255, 255, 255, 255]"
    by (simp add: hholes_def hline_def half_hline_def draw_hline_def add_hholes_def get_holes_def
        hole_factor_def thickness_initial_1 py_range_def upto_2 setitem_def Let_def and_then_def
        eval_nat_numeral)
  have t: "thickness initial_globals 1 True = Inr 2" by (rule thickness_initial_1)
  have b: "hholes initial_globals (replicate 32 0) 16 2 1 3 =
      Returned (paint (cells 16 ({2..<4} \<union> {6..<8} \<union> {10..<12}) {0..<2}) 0
                 (paint (cells 16 {0..<16} {0..<2}) 255 (replicate 32 0)))"
    using hholes_paint[OF t, of 2 16 3 "replicate 32 0"] by (simp add: hole_starts_def Un_assoc)
  have c: "hholes initial_globals (replicate 16 0) 8 2 1 1 =
      Returned (paint (cells 8 {4..<5} {0..<2}) 0 (paint (cells 8 {0..<8} {0..<2}) 255 (replicate 16 0)))"
    using hholes_paint[OF t, of 2 8 1 "replicate 16 0"] by (simp add: hole_starts_def)
  have m: "(2::int) \<in> cells 16 X Y \<longleftrightarrow> 2 \<in> X \<and> 0 \<in> Y"
    "(13::int) \<in> cells 16 X Y \<longleftrightarrow> 13 \<in> X \<and> 0 \<in> Y" if "X \<subseteq> {0..<16}" for X Y
    using cells_iff[of 2 16 X 0 Y] cells_iff[of 13 16 X 0 Y] that by simp_all
  have m8: "(4::int) \<in> cells 8 X Y \<longleftrightarrow> 4 \<in> X \<and> 0 \<in> Y"
    "(3::int) \<in> cells 8 X Y \<longleftrightarrow> 3 \<in> X \<and> 0 \<in> Y" if "X \<subseteq> {0..<8}" for X Y
    using cells_iff[of 4 8 X 0 Y] cells_iff[of 3 8 X 0 Y] that by simp_all
  show ?thesis
    by (simp add: a b c nth_paint m m8)
qed

theorem hholes_runs_witness:
  "thickness initial_globals 1 True = Inr 2 \<and> (2::int) \<le> 16 \<and> (8::int) \<le> 16 \<and> (1::int) \<in> {1, 2, 3}
   \<and> ((1::int) = 1 \<and> even (16::int) \<and> even ((16::int) div 8))
   \<and> (\<exists>out starts.
        hholes initial_globals (replicate (nat (16 * 16)) 0) 16 16 1 1 = Returned out
      \<and> get_holes 16 (16 div 8) 1 = Inr (map (\<lambda>a. py_range a (a + 16 div 8)) starts)
      \<and> length out = nat (16 * 16) \<and> length starts = nat 1
      \<and> out ! nat (0 * 16 + 5) = 0
      \<and> (\<forall>x. (\<exists>a\<in>set starts. a \<le> x \<and> x < a + 16 div 8) \<longleftrightarrow>
               (\<exists>a\<in>set starts. a \<le> 16 - 1 - x \<and> 16 - 1 - x < a + 16 div 8)))"
proof -
  have t: "thickness initial_globals 1 True = Inr 2" by (rule thickness_initial_1)
  have h: "(2::int) \<le> 16" "(8::int) \<le> 16" "(1::int) \<in> {1, 2, 3}" by simp_all
  have s: "(1::int) = 1 \<and> even (16::int) \<and> even ((16::int) div 8)" by simp
  from hholes_runs[OF t h] obtain out starts where o:
    "hholes initial_globals (replicate (nat (16 * 16)) 0) 16 16 1 1 = Returned out"
    "get_holes 16 (16 div 8) 1 = Inr (map (\<lambda>a. py_range a (a + 16 div 8)) starts)"
    "length out = nat (16 * 16)" "length starts = nat 1"
    "\<And>x y. 0 \<le> x \<and> x < 16 \<and> 0 \<le> y \<and> y < 16 \<Longrightarrow>
          out ! nat (y * 16 + x) =
            (if 16 div 2 - 2 div 2 \<le> y \<and> y < 16 div 2 - 2 div 2 + 2
                \<and> \<not> (\<exists>a\<in>set starts. a \<le> x \<and> x < a + 16 div 8)
             then 255 else 0)"
    "(1::int) = 1 \<and> even (16::int) \<and> even ((16::int) div 8) \<or> (1::int) = 3 \<and> 4 dvd (16::int) - 3 * (16 div 8) \<Longrightarrow>
          (\<forall>x. (\<exists>a\<in>set starts. a \<le> x \<and> x < a + 16 div 8) \<longleftrightarrow>
                (\<exists>a\<in>set starts. a \<le> 16 - 1 - x \<and> 16 - 1 - x < a + 16 div 8))"
    by blast
  have p: "out ! nat (0 * 16 + 5) = 0" using o(5)[of 5 0] by simp
  have y: "\<forall>x. (\<exists>a\<in>set starts. a \<le> x \<and> x < a + 16 div 8) \<longleftrightarrow>
                (\<exists>a\<in>set starts. a \<le> 16 - 1 - x \<and> 16 - 1 - x < a + 16 div 8)"
    using o(6) s by blast
  have ex: "\<exists>out starts.
        hholes initial_globals (replicate (nat (16 * 16)) 0) 16 16 1 1 = Returned out
      \<and> get_holes 16 (16 div 8) 1 = Inr (map (\<lambda>a. py_range a (a + 16 div 8)) starts)
      \<and> length out = nat (16 * 16) \<and> length starts = nat 1
      \<and> out ! nat (0 * 16 + 5) = 0
      \<and> (\<forall>x. (\<exists>a\<in>set starts. a \<le> x \<and> x < a + 16 div 8) \<longleftrightarrow>
               (\<exists>a\<in>set starts. a \<le> 16 - 1 - x \<and> 16 - 1 - x < a + 16 div 8))"
    using o(1-4) p y by blast
  show ?thesis
    apply (intro conjI)
           apply (rule t)
          apply simp
         apply simp
        apply simp
       apply simp
      apply simp
     apply simp
    apply (rule ex)
    done
qed

subsection \<open>The entry point\<close>

lemma render_calls_scale: "scale (render_calls box_chars g calls) = scale g"
  by (induction box_chars g calls rule: render_calls.induct)
     (auto simp: render_box_char_def Let_def split: option.splits)

lemma render_same_scale:
  assumes "scale g2 = scale g1"
  shows "snd (render_box_char box_chars g2 ch buf width height d)
       = snd (render_box_char box_chars g1 ch buf width height d)"
proof -
  have "g2\<lparr>dpi := d\<rparr> = g1\<lparr>dpi := d\<rparr>" using assms by simp
  then show ?thesis by (simp add: render_box_char_def Let_def split: option.splits)
qed

text \<open>
  \<^bold>\<open>C9.\<close>  The buffer \<open>render_box_char\<close> produces (or the exception it raises) depends on
  the globals only through the scale table: two calls with the same arguments and the
  same scale table have the same outcome, whatever \<open>_dpi\<close> held before.  Hence rendering
  \<open>ch\<close> at DPI \<open>d\<close>, then any sequence of other render calls at any DPI, then \<open>ch\<close> at
  DPI \<open>d\<close> again on an identical buffer, gives the outcome of the first render.
\<close>

theorem render_no_residual_state:
  "(scale g2 = scale g1 \<longrightarrow>
      snd (render_box_char box_chars g2 ch buf width height d)
    = snd (render_box_char box_chars g1 ch buf width height d))
   \<and> snd (render_box_char box_chars
            (render_calls box_chars (fst (render_box_char box_chars g ch buf width height d)) calls)
            ch buf width height d)
     = snd (render_box_char box_chars g ch buf width height d)"
proof (intro conjI impI)
  assume "scale g2 = scale g1"
  then show "snd (render_box_char box_chars g2 ch buf width height d)
           = snd (render_box_char box_chars g1 ch buf width height d)"
    by (rule render_same_scale)
next
  have "scale (render_calls box_chars (fst (render_box_char box_chars g ch buf width height d)) calls)
        = scale g"
    by (simp add: render_calls_scale render_box_char_def Let_def split: option.splits)
  then show "snd (render_box_char box_chars
            (render_calls box_chars (fst (render_box_char box_chars g ch buf width height d)) calls)
            ch buf width height d)
     = snd (render_box_char box_chars g ch buf width height d)"
    by (rule render_same_scale)
qed

lemma for_each_no_key_error:
  assumes "\<And>x b. x \<in> set xs \<Longrightarrow> body x b \<noteq> Raised KeyError b'"
  shows "for_each xs body b \<noteq> Raised KeyError b'"
  using assms by (induction xs arbitrary: b) (auto split: outcome.splits)

text \<open>
  \<^bold>\<open>C2.\<close>  For every character \<open>ch\<close>, \<open>render_box_char\<close> raises KeyError (the
  UnknownGlyph condition) if and only if \<open>ch\<close> has no recipe in the table, given that no
  routine of a recipe raises KeyError itself; and when \<open>ch\<close> has no recipe the call
  raises with the buffer exactly as it was passed in (no drawing step has run).
\<close>

theorem render_unknown_glyph:
  assumes "\<forall>recipe. box_chars ch = Some recipe \<longrightarrow> (\<forall>func\<in>set recipe. never_key_error func)"
  shows "((\<exists>b. snd (render_box_char box_chars g ch buf width height d) = Raised KeyError b)
            \<longleftrightarrow> box_chars ch = None)
       \<and> (box_chars ch = None \<longrightarrow>
            render_box_char box_chars g ch buf width height d = (g\<lparr>dpi := d\<rparr>, Raised KeyError buf))"
proof (cases "box_chars ch")
  case None
  then show ?thesis by (simp add: render_box_char_def Let_def)
next
  case (Some recipe)
  have "func g' b width height \<noteq> Raised KeyError b'" if "func \<in> set recipe" for func g' b b'
  proof -
    have "never_key_error func" using assms Some that by simp
    then show ?thesis by (simp add: never_key_error_def)
  qed
  then have "for_each recipe (\<lambda>func b. func (g\<lparr>dpi := d\<rparr>) b width height) buf \<noteq> Raised KeyError b'" for b'
    by (intro for_each_no_key_error) 
  then show ?thesis using Some by (simp add: render_box_char_def Let_def)
qed

lemma setitem_no_key_error: "setitem b i v \<noteq> Raised KeyError b'"
  by (simp add: setitem_def Let_def)

lemma thickness_no_key_error: "thickness g level h \<noteq> Inl KeyError"
  by (cases "scale g") (simp add: thickness_def scale_item_def)

lemma draw_hline_no_key_error: "draw_hline g buf width x1 x2 y level \<noteq> Raised KeyError b'"
proof (cases "thickness g level False")
  case (Inl e)
  then show ?thesis using thickness_no_key_error[of g level False] by (simp add: draw_hline_def)
next
  case (Inr sz)
  then show ?thesis
    by (simp add: draw_hline_def Let_def for_each_no_key_error setitem_no_key_error)
qed

lemma draw_vline_no_key_error: "draw_vline g buf width y1 y2 x level \<noteq> Raised KeyError b'"
proof (cases "thickness g level True")
  case (Inl e)
  then show ?thesis using thickness_no_key_error[of g level True] by (simp add: draw_vline_def)
next
  case (Inr sz)
  then show ?thesis
    by (simp add: draw_vline_def Let_def for_each_no_key_error setitem_no_key_error)
qed

lemma and_then_no_key_error:
  assumes "r \<noteq> Raised KeyError b'" "\<And>b. f b \<noteq> Raised KeyError b'"
  shows "and_then r f \<noteq> Raised KeyError b'"
  using assms by (cases r) (auto simp: and_then_def)

lemma cross_never_key_error:
  "never_key_error (\<lambda>g buf width height. cross g buf width height a b c d)"
  unfolding never_key_error_def
proof (intro allI)
  fix g buf width height b'
  show "cross g buf width height a b c d \<noteq> Raised KeyError b'"
    unfolding cross_def half_hline_def half_vline_def
    by (simp add: and_then_no_key_error draw_hline_no_key_error draw_vline_no_key_error)
qed

theorem render_unknown_glyph_witness:
  "cross_family cross_start Map.empty cross_start
       = Some [\<lambda>g buf width height. cross g buf width height 1 1 1 1]
   \<and> never_key_error (\<lambda>g buf width height. cross g buf width height 1 1 1 1)
   \<and> cross_family cross_start Map.empty 65 = None
   \<and> \<not> (\<exists>b. snd (render_box_char (cross_family cross_start Map.empty) initial_globals cross_start
                    (replicate 4 0) 2 2 96) = Raised KeyError b)
   \<and> render_box_char (cross_family cross_start Map.empty) initial_globals 65 (replicate 4 0) 2 2 300
       = (initial_globals\<lparr>dpi := 300\<rparr>, Raised KeyError (replicate 4 0))"
proof -
  let ?tbl = "cross_family cross_start Map.empty"
  have s: "?tbl cross_start = Some [\<lambda>g buf width height. cross g buf width height 1 1 1 1]"
    by (rule cross_family_start)
  have n: "?tbl 65 = None"
    by (simp add: cross_family_def cross_levels_def cross_start_def enumerate_eq_zip upt_rec)
  have k: "never_key_error (\<lambda>g buf width height. cross g buf width height 1 1 1 1)"
    by (rule cross_never_key_error)
  have h1: "\<forall>recipe. ?tbl cross_start = Some recipe \<longrightarrow> (\<forall>func\<in>set recipe. never_key_error func)"
    using s k by simp
  have h2: "\<forall>recipe. ?tbl 65 = Some recipe \<longrightarrow> (\<forall>func\<in>set recipe. never_key_error func)"
    using n by simp
  from render_unknown_glyph[of ?tbl cross_start initial_globals "replicate 4 0" 2 2 96] h1 s
  have a: "\<not> (\<exists>b. snd (render_box_char ?tbl initial_globals cross_start (replicate 4 0) 2 2 96)
                   = Raised KeyError b)"
    by simp
  from render_unknown_glyph[of ?tbl 65 initial_globals "replicate 4 0" 2 2 300] h2 n
  have b: "render_box_char ?tbl initial_globals 65 (replicate 4 0) 2 2 300
       = (initial_globals\<lparr>dpi := 300\<rparr>, Raised KeyError (replicate 4 0))"
    by simp
  from s k n a b show ?thesis by blast
qed

theorem render_no_residual_state_witness:
  "scale (initial_globals\<lparr>dpi := 300\<rparr>) = scale initial_globals
   \<and> snd (render_box_char (cross_family cross_start Map.empty) (initial_globals\<lparr>dpi := 300\<rparr>)
            cross_start (replicate 256 0) 16 16 96)
     = snd (render_box_char (cross_family cross_start Map.empty) initial_globals
            cross_start (replicate 256 0) 16 16 96)
   \<and> snd (render_box_char (cross_family cross_start Map.empty)
            (render_calls (cross_family cross_start Map.empty)
               (fst (render_box_char (cross_family cross_start Map.empty) initial_globals
                       cross_start (replicate 256 0) 16 16 96))
               [(cross_start, replicate 256 0, 16, 16, 300), (65, replicate 4 0, 2, 2, 72)])
            cross_start (replicate 256 0) 16 16 96)
     = snd (render_box_char (cross_family cross_start Map.empty) initial_globals
            cross_start (replicate 256 0) 16 16 96)"
proof -
  have s: "scale (initial_globals\<lparr>dpi := 300\<rparr>) = scale initial_globals" by simp
  note t = render_no_residual_state[of "initial_globals\<lparr>dpi := 300\<rparr>" initial_globals
      "cross_family cross_start Map.empty" cross_start "replicate 256 0" 16 16 96 initial_globals
      "[(cross_start, replicate 256 0, 16, 16, 300), (65, replicate 4 0, 2, 2, 72)]"]
  from t s show ?thesis by blast
qed

subsection \<open>Supersampling\<close>

lemma for_each_append:
  "for_each (xs @ ys) body b =
     (case for_each xs body b of Returned b' \<Rightarrow> for_each ys body b' | Raised e b' \<Rightarrow> Raised e b')"
  by (induction xs arbitrary: b) (auto split: outcome.splits)

lemma for_each_product:
  "for_each ys (\<lambda>y b. for_each xs (\<lambda>x b. body y x b) b) b
     = for_each (List.product ys xs) (\<lambda>(y, x) b. body y x b) b"
proof (induction ys arbitrary: b)
  case Nil
  then show ?case by simp
next
  case (Cons y ys)
  have "for_each (map (Pair y) xs) (\<lambda>(y, x) b. body y x b) b' = for_each xs (\<lambda>x b. body y x b) b'"
    for b'
    by (induction xs arbitrary: b') (auto split: outcome.splits)
  then show ?case using Cons by (simp add: for_each_append split: outcome.splits)
qed

lemma for_each_rmw:
  assumes "distinct (map idx xs)" and "\<forall>x\<in>set xs. idx x < length b"
    and "\<And>x b'. x \<in> set xs \<Longrightarrow> length b' = length b \<Longrightarrow>
           body x b' = Returned (b'[idx x := F x (b' ! idx x)])"
  shows "\<exists>out. for_each xs body b = Returned out \<and> length out = length b
           \<and> (\<forall>x\<in>set xs. out ! idx x = F x (b ! idx x))
           \<and> (\<forall>i. i \<notin> idx ` set xs \<longrightarrow> out ! i = b ! i)"
  using assms
proof (induction xs arbitrary: b)
  case Nil
  then show ?case by simp
next
  case (Cons a xs)
  let ?b1 = "b[idx a := F a (b ! idx a)]"
  have s: "body a b = Returned ?b1" using Cons.prems(3)[of a b] by simp
  have "\<exists>out. for_each xs body ?b1 = Returned out \<and> length out = length ?b1
           \<and> (\<forall>x\<in>set xs. out ! idx x = F x (?b1 ! idx x))
           \<and> (\<forall>i. i \<notin> idx ` set xs \<longrightarrow> out ! i = ?b1 ! i)"
    using Cons.prems by (intro Cons.IH) auto
  then obtain out where o: "for_each xs body ?b1 = Returned out" "length out = length b"
    "\<forall>x\<in>set xs. out ! idx x = F x (?b1 ! idx x)" "\<forall>i. i \<notin> idx ` set xs \<longrightarrow> out ! i = ?b1 ! i"
    by auto
  have na: "idx a \<notin> idx ` set xs" using Cons.prems(1) by auto
  have la: "idx a < length b" using Cons.prems(2) by simp
  have 1: "out ! idx x = F x (b ! idx x)" if "x \<in> set (a # xs)" for x
  proof (cases "x = a")
    case True
    then show ?thesis using o(4) na la by simp
  next
    case False
    then have x: "x \<in> set xs" using that by simp
    then have "idx x \<noteq> idx a" using na by (metis imageI)
    then show ?thesis using o(3) x by simp
  qed
  have 2: "out ! i = b ! i" if "i \<notin> idx ` set (a # xs)" for i
    using that o(4) by simp
  show ?case using s o(1,2) 1 2 by simp
qed

lemma getitem_inrange:
  "0 \<le> i \<Longrightarrow> i < int (length b) \<Longrightarrow> getitem b i = Inr (uint (b ! nat i))"
  by (simp add: getitem_def)

lemma setitem_inrange:
  "0 \<le> i \<Longrightarrow> i < int (length b) \<Longrightarrow> setitem b i v = Returned (b[nat i := v])"
  by (simp add: setitem_def)

lemma for_acc_sum:
  assumes "\<forall>x\<in>set xs. 0 \<le> off + x \<and> off + x < int (length src)"
  shows "for_acc xs (\<lambda>x t. case getitem src (off + x) of Inl e \<Rightarrow> Inl e | Inr v \<Rightarrow> Inr (t + v)) t0
           = Inr (t0 + (\<Sum>x\<leftarrow>xs. uint (src ! nat (off + x))))"
  using assms by (induction xs arbitrary: t0) (auto simp: getitem_inrange)

lemma for_acc_sum_outer:
  assumes "\<And>y t. y \<in> set ys \<Longrightarrow> body y t = Inr (t + f y)"
  shows "for_acc ys body t0 = Inr (t0 + (\<Sum>y\<leftarrow>ys. f y))"
  using assms by (induction ys arbitrary: t0) (auto simp: add.assoc)

lemma distinct_py_range [simp]: "distinct (py_range a b)"
  by (simp add: py_range_def)

lemma average_block:
  assumes w: "0 \<le> x" "x < w" and h: "0 \<le> y" "y < h" and len: "length src = nat (4 * w * (4 * h))"
  shows "average_intensity_in_src src (4 * w) 4 x y =
           Inr ((\<Sum>j\<in>{4 * y..<4 * y + 4}. \<Sum>i\<in>{4 * x..<4 * x + 4}. uint (src ! nat (4 * w * j + i))) div 16)"
proof -
  have inr: "0 \<le> 4 * w * j + i \<and> 4 * w * j + i < int (length src)"
    if "j \<in> {4 * y..<4 * y + 4}" "i \<in> {4 * x..<4 * x + 4}" for i j
  proof -
    have "0 \<le> i" "i < 4 * w" "0 \<le> j" "j < 4 * h" using that w h by auto
    from cell_in_range[OF this]
    have "0 \<le> j * (4 * w) + i" "j * (4 * w) + i < 4 * w * (4 * h)" .
    then show ?thesis using len by (simp add: mult.commute)
  qed
  have inner: "for_acc (py_range (x * 4) (x * 4 + 4))
                  (\<lambda>i t. case getitem src (4 * w * j + i) of Inl e \<Rightarrow> Inl e | Inr v \<Rightarrow> Inr (t + v)) t
             = Inr (t + (\<Sum>i\<leftarrow>py_range (x * 4) (x * 4 + 4). uint (src ! nat (4 * w * j + i))))"
    if "j \<in> {4 * y..<4 * y + 4}" for j t
    using inr[OF that] by (intro for_acc_sum) auto
  have outer: "for_acc (py_range (y * 4) (y * 4 + 4))
             (\<lambda>j. for_acc (py_range (x * 4) (x * 4 + 4))
                  (\<lambda>i t. case getitem src (4 * w * j + i) of Inl e \<Rightarrow> Inl e | Inr v \<Rightarrow> Inr (t + v))) 0
           = Inr (0 + (\<Sum>j\<leftarrow>py_range (y * 4) (y * 4 + 4).
                          \<Sum>i\<leftarrow>py_range (x * 4) (x * 4 + 4). uint (src ! nat (4 * w * j + i))))"
  proof (rule for_acc_sum_outer)
    fix j t assume "j \<in> set (py_range (y * 4) (y * 4 + 4))"
    then have "j \<in> {4 * y..<4 * y + 4}" by auto
    from inner[OF this, of t]
    show "for_acc (py_range (x * 4) (x * 4 + 4))
                  (\<lambda>i t. case getitem src (4 * w * j + i) of Inl e \<Rightarrow> Inl e | Inr v \<Rightarrow> Inr (t + v)) t
          = Inr (t + (\<Sum>i\<leftarrow>py_range (x * 4) (x * 4 + 4). uint (src ! nat (4 * w * j + i))))" .
  qed
  have e: "{y * 4..<y * 4 + 4} = {4 * y..<4 * y + 4}" "{x * 4..<x * 4 + 4} = {4 * x..<4 * x + 4}"
    by (simp_all add: mult.commute)
  have sums: "(\<Sum>j\<leftarrow>py_range (y * 4) (y * 4 + 4).
                 \<Sum>i\<leftarrow>py_range (x * 4) (x * 4 + 4). uint (src ! nat (4 * w * j + i)))
            = (\<Sum>j\<in>{4 * y..<4 * y + 4}. \<Sum>i\<in>{4 * x..<4 * x + 4}. uint (src ! nat (4 * w * j + i)))"
    by (simp add: sum_list_distinct_conv_sum_set e)
  show ?thesis
    unfolding average_intensity_in_src_def Let_def by (simp add: outer sums)
qed

lemma block_sum_nonneg: "0 \<le> block_sum src w x y"
  unfolding block_sum_def by (intro sum_nonneg) simp

lemma grid_distinct:
  assumes "0 \<le> w"
  shows "distinct (map (\<lambda>(y, x). nat (w * y + x)) (List.product (py_range 0 h) (py_range 0 w)))"
proof -
  have "inj_on (\<lambda>(y, x). nat (w * y + x)) (set (List.product (py_range 0 h) (py_range 0 w)))"
  proof (rule inj_onI, clarsimp)
    fix y x y' x' :: int
    assume a: "0 \<le> y" "y < h" "0 \<le> x" "x < w" "0 \<le> y'" "y' < h" "0 \<le> x'" "x' < w"
      and e: "nat (w * y + x) = nat (w * y' + x')"
    have "0 \<le> w * y + x" "0 \<le> w * y' + x'" using a assms by simp_all
    with e have "y * w + x = y' * w + x'" by (simp add: mult.commute)
    from grid_unique[OF a(3,4,7,8) this] show "y = y' \<and> x = x'" .
  qed
  then show ?thesis by (simp add: distinct_map distinct_product)
qed

lemma downsample_frame:
  assumes w: "0 \<le> w" and h: "0 \<le> h"
    and ld: "nat (w * h) \<le> length dest" and ls: "length src = nat (4 * w * (4 * h))"
  shows "\<exists>out. downsample src dest w h 4 = Returned out \<and> length out = length dest
           \<and> (\<forall>x y. 0 \<le> x \<and> x < w \<and> 0 \<le> y \<and> y < h \<longrightarrow>
                 uint (out ! nat (y * w + x)) =
                   min 255 (uint (dest ! nat (y * w + x)) + block_sum src w x y div 16))
           \<and> (\<forall>i. nat (w * h) \<le> i \<longrightarrow> out ! i = dest ! i)"
proof -
  let ?idx = "\<lambda>(y, x). nat (w * y + x)"
  let ?F = "\<lambda>(y, x) old. (word_of_int (min 255 (uint old + block_sum src w x y div 16)) :: byte)"
  let ?body = "\<lambda>(y, x) dest.
                case getitem dest (w * y + x) of
                  Inl e \<Rightarrow> Raised e dest
                | Inr old \<Rightarrow>
                    (case average_intensity_in_src src (4 * w) 4 x y of
                       Inl e \<Rightarrow> Raised e dest
                     | Inr avg \<Rightarrow> setitem_int dest (w * y + x) (min 255 (old + avg)))"
  let ?grid = "List.product (py_range 0 h) (py_range 0 w)"
  have ds: "downsample src dest w h 4 = for_each ?grid ?body dest"
    unfolding downsample_def Let_def by (rule for_each_product)
  have inr: "0 \<le> w * y + x \<and> w * y + x < w * h" if "0 \<le> x" "x < w" "0 \<le> y" "y < h" for x y
    using cell_in_range[OF that] by (simp add: mult.commute)
  have body: "?body p b' = Returned (b'[?idx p := ?F p (b' ! ?idx p)])"
    if "p \<in> set ?grid" "length b' = length dest" for p b'
  proof -
    obtain y x where p: "p = (y, x)" by (cases p)
    have r: "0 \<le> x" "x < w" "0 \<le> y" "y < h" using that(1) p by auto
    have i: "0 \<le> w * y + x" "w * y + x < int (length b')"
      using inr[OF r] that(2) ld by linarith+
    have a: "average_intensity_in_src src (4 * w) 4 x y = Inr (block_sum src w x y div 16)"
      unfolding block_sum_def using r ls by (rule average_block)
    have n: "0 \<le> block_sum src w x y div 16" using block_sum_nonneg[of src w x y] by simp
    have v: "0 \<le> min 255 (uint (b' ! nat (w * y + x)) + block_sum src w x y div 16)"
      "min 255 (uint (b' ! nat (w * y + x)) + block_sum src w x y div 16) < 256"
      using n by simp_all
    show ?thesis
      using v by (simp add: p getitem_inrange[OF i] a setitem_int_def setitem_inrange[OF i])
  qed
  have "\<exists>out. for_each ?grid ?body dest = Returned out \<and> length out = length dest
           \<and> (\<forall>p\<in>set ?grid. out ! ?idx p = ?F p (dest ! ?idx p))
           \<and> (\<forall>i. i \<notin> ?idx ` set ?grid \<longrightarrow> out ! i = dest ! i)"
  proof (rule for_each_rmw)
    show "distinct (map ?idx ?grid)" using w by (rule grid_distinct)
    show "\<forall>p\<in>set ?grid. ?idx p < length dest"
    proof
      fix p assume "p \<in> set ?grid"
      then obtain y x where p: "p = (y, x)" and r: "0 \<le> x" "x < w" "0 \<le> y" "y < h" by auto
      from inr[OF r] ld show "?idx p < length dest" using p by simp linarith
    qed
    show "\<And>p b'. p \<in> set ?grid \<Longrightarrow> length b' = length dest \<Longrightarrow>
            ?body p b' = Returned (b'[?idx p := ?F p (b' ! ?idx p)])"
      by (rule body)
  qed
  then obtain out where o: "for_each ?grid ?body dest = Returned out" "length out = length dest"
    "\<forall>p\<in>set ?grid. out ! ?idx p = ?F p (dest ! ?idx p)"
    "\<forall>i. i \<notin> ?idx ` set ?grid \<longrightarrow> out ! i = dest ! i"
    by blast
  have fr: "out ! i = dest ! i" if "nat (w * h) \<le> i" for i
  proof -
    have "i \<notin> ?idx ` set ?grid"
    proof
      assume "i \<in> ?idx ` set ?grid"
      then obtain y x where "i = nat (w * y + x)" and r: "0 \<le> x" "x < w" "0 \<le> y" "y < h" by auto
      with inr[OF r] that show False by linarith
    qed
    with o(4) show ?thesis by blast
  qed
  have px: "uint (out ! nat (y * w + x)) =
              min 255 (uint (dest ! nat (y * w + x)) + block_sum src w x y div 16)"
    if "0 \<le> x \<and> x < w \<and> 0 \<le> y \<and> y < h" for x y
  proof -
    have "(y, x) \<in> set ?grid" using that by simp
    with o(3) have "out ! nat (w * y + x)
        = word_of_int (min 255 (uint (dest ! nat (w * y + x)) + block_sum src w x y div 16))"
      by fastforce
    moreover have "0 \<le> block_sum src w x y div 16" using block_sum_nonneg[of src w x y] by simp
    ultimately show ?thesis
      by (simp add: mult.commute uint_word_of_int_eq take_bit_int_eq_self)
  qed
  show ?thesis using ds o(1,2) px fr by auto
qed

lemma downsample_spec:
  assumes w: "0 \<le> w" and h: "0 \<le> h"
    and ld: "length dest = nat (w * h)" and ls: "length src = nat (4 * w * (4 * h))"
  shows "\<exists>out. downsample src dest w h 4 = Returned out \<and> length out = length dest
           \<and> (\<forall>x y. 0 \<le> x \<and> x < w \<and> 0 \<le> y \<and> y < h \<longrightarrow>
                 uint (out ! nat (y * w + x)) =
                   min 255 (uint (dest ! nat (y * w + x)) + block_sum src w x y div 16))"
proof -
  have "nat (w * h) \<le> length dest" using ld by simp
  from downsample_frame[OF w h this ls] show ?thesis by blast
qed



text \<open>
  \<^bold>\<open>C3.\<close>  For every routine \<open>f\<close> wrapped by \<open>supersampled()\<close> and a destination buffer of
  \<open>width * height\<close> bytes: the wrapper runs \<open>f\<close> on a fresh zero buffer of
  \<open>(4 * width) * (4 * height)\<close> bytes at the dimensions \<open>4 * width\<close>, \<open>4 * height\<close>.  When \<open>f\<close>
  raises, the wrapper raises the same exception and the destination is unchanged.  When
  \<open>f\<close> returns (the scratch buffer keeps its size), every destination pixel \<open>(x, y)\<close>
  becomes \<open>min(255, old + avg)\<close>, where \<open>avg\<close> is the sum of the \<open>4 \<times> 4\<close> block of the scratch
  buffer over it, floor-divided by 16; no destination byte decreases.
\<close>

theorem supersampled_adds_block_average:
  assumes w: "0 \<le> width" and h: "0 \<le> height" and len: "length buf = nat (width * height)"
  shows "(\<forall>e ss. f 4 g (replicate (nat (4 * width * (4 * height))) 0) (4 * width) (4 * height)
                    = Raised e ss \<longrightarrow>
            supersampled 4 f g buf width height = Raised e buf)
       \<and> (\<forall>ss. f 4 g (replicate (nat (4 * width * (4 * height))) 0) (4 * width) (4 * height)
                    = Returned ss \<and> length ss = nat (4 * width * (4 * height)) \<longrightarrow>
            (\<exists>out. supersampled 4 f g buf width height = Returned out \<and> length out = length buf
               \<and> (\<forall>x y. 0 \<le> x \<and> x < width \<and> 0 \<le> y \<and> y < height \<longrightarrow>
                     uint (out ! nat (y * width + x)) =
                       min 255 (uint (buf ! nat (y * width + x)) + block_sum ss width x y div 16))
               \<and> (\<forall>i<length buf. buf ! i \<le> out ! i)))"
proof (intro conjI allI impI)
  have "0 \<le> 4 * width * (4 * height)" using w h by (intro mult_nonneg_nonneg) simp_all
  then have nn: "\<not> 4 * width * (4 * height) < 0" by simp
  {
    fix e ss
    assume "f 4 g (replicate (nat (4 * width * (4 * height))) 0) (4 * width) (4 * height) = Raised e ss"
    then show "supersampled 4 f g buf width height = Raised e buf"
      using nn by (simp add: supersampled_def Let_def)
  }
  {
    fix ss
    assume a: "f 4 g (replicate (nat (4 * width * (4 * height))) 0) (4 * width) (4 * height)
                 = Returned ss \<and> length ss = nat (4 * width * (4 * height))"
    then have s: "supersampled 4 f g buf width height = downsample ss buf width height 4"
      using nn by (simp add: supersampled_def Let_def)
    from downsample_spec[OF w h len, of ss] a
    obtain out where o: "downsample ss buf width height 4 = Returned out" "length out = length buf"
      "\<And>x y. 0 \<le> x \<and> x < width \<and> 0 \<le> y \<and> y < height \<Longrightarrow>
         uint (out ! nat (y * width + x)) =
           min 255 (uint (buf ! nat (y * width + x)) + block_sum ss width x y div 16)"
      by blast
    have mono: "buf ! i \<le> out ! i" if "i < length buf" for i
    proof -
      have iw: "int i < width * height" using that len by simp
      then have wpos: "0 < width"
        using w h by (metis less_le mult_zero_left of_nat_0_le_iff not_less order_trans)
      define x y where "x = int i mod width" and "y = int i div width"
      have x: "0 \<le> x" "x < width" using wpos by (simp_all add: x_def)
      have y0: "0 \<le> y" using wpos by (simp add: y_def pos_imp_zdiv_nonneg_iff)
      have i: "int i = y * width + x" by (simp add: x_def y_def)
      have y1: "y < height"
      proof (rule ccontr)
        assume "\<not> y < height"
        then have "height * width \<le> y * width" using wpos by (intro mult_right_mono) simp_all
        moreover have "int i < height * width" using iw by (simp add: mult.commute)
        ultimately show False using i x by linarith
      qed
      have n: "nat (y * width + x) = i" using i by simp
      have "0 \<le> block_sum ss width x y div 16" using block_sum_nonneg[of ss width x y] by simp
      moreover have "uint (buf ! i) \<le> 255"
        using uint_bounded[of "buf ! i"] by simp
      ultimately have "uint (buf ! i) \<le> min 255 (uint (buf ! i) + block_sum ss width x y div 16)"
        by simp
      then have "uint (buf ! i) \<le> uint (out ! i)" using o(3)[of x y] x y0 y1 n by simp
      then show ?thesis by (simp add: word_le_def)
    qed
    show "\<exists>out. supersampled 4 f g buf width height = Returned out \<and> length out = length buf
               \<and> (\<forall>x y. 0 \<le> x \<and> x < width \<and> 0 \<le> y \<and> y < height \<longrightarrow>
                     uint (out ! nat (y * width + x)) =
                       min 255 (uint (buf ! nat (y * width + x)) + block_sum ss width x y div 16))
               \<and> (\<forall>i<length buf. buf ! i \<le> out ! i)"
      using s o mono by auto
  }
qed

theorem supersampled_adds_block_average_witness:
  "(0::int) \<le> 1 \<and> length [100::byte] = nat (1 * 1)
   \<and> (\<lambda>ssf g b w h. Returned (replicate (length b) 16)) (4::int) initial_globals
         (replicate (nat (4 * 1 * (4 * 1))) 0) (4 * 1 :: int) (4 * 1 :: int) = Returned (replicate 16 16)
   \<and> length (replicate 16 (16::byte)) = nat (4 * 1 * (4 * 1))
   \<and> block_sum (replicate 16 16) 1 0 0 div 16 = 16
   \<and> (\<exists>out. supersampled 4 (\<lambda>ssf g b w h. Returned (replicate (length b) 16)) initial_globals [100] 1 1
               = Returned out
          \<and> length out = 1 \<and> uint (out ! 0) = 116 \<and> [100] ! 0 \<le> out ! 0)"
proof -
  let ?f = "\<lambda>(ssf::int) (g::globals) (b::buf) (w::int) (h::int). Returned (replicate (length b) 16)"
  have h: "(0::int) \<le> 1" "length [100::byte] = nat (1 * 1)" by simp_all
  have r: "?f 4 initial_globals (replicate (nat (4 * 1 * (4 * 1))) 0) (4 * 1) (4 * 1)
             = Returned (replicate 16 16)"
    "length (replicate 16 (16::byte)) = nat (4 * 1 * (4 * 1))" by simp_all
  have "block_sum (replicate 16 16) 1 0 0 = (\<Sum>j\<in>{0..<4::int}. \<Sum>i\<in>{0..<4::int}. 16)"
    unfolding block_sum_def by (intro sum.cong refl) (auto simp: nat_less_iff)
  then have b: "block_sum (replicate 16 16) 1 0 0 div 16 = 16" by simp
  from supersampled_adds_block_average[OF h(1) h(1) h(2), of ?f initial_globals] r
  obtain out where o: "supersampled 4 ?f initial_globals [100] 1 1 = Returned out"
    "length out = length [100::byte]"
    "\<And>x y. 0 \<le> x \<and> x < 1 \<and> 0 \<le> y \<and> y < 1 \<Longrightarrow>
         uint (out ! nat (y * 1 + x)) =
           min 255 (uint ([100::byte] ! nat (y * 1 + x)) + block_sum (replicate 16 16) 1 x y div 16)"
    "\<And>i. i < length [100::byte] \<Longrightarrow> [100::byte] ! i \<le> out ! i"
    by blast
  have "uint (out ! 0) = 116" using o(3)[of 0 0] b by simp
  moreover have "[100::byte] ! 0 \<le> out ! 0" using o(4)[of 0] by simp
  ultimately have "\<exists>out. supersampled 4 ?f initial_globals [100] 1 1 = Returned out
          \<and> length out = 1 \<and> uint (out ! 0) = 116 \<and> [100] ! 0 \<le> out ! 0"
    using o(1,2) by auto
  with h r b show ?thesis by simp
qed

subsection \<open>The D shape and its mirror image\<close>

lemma length_setitem: "length (buffer (setitem b i v)) = length b"
  by (simp add: setitem_def Let_def)

lemma for_each_length:
  assumes "\<And>x b. x \<in> set xs \<Longrightarrow> length (buffer (body x b)) = length b"
  shows "length (buffer (for_each xs body b)) = length b"
  using assms
proof (induction xs arbitrary: b)
  case Nil
  then show ?case by simp
next
  case (Cons a xs)
  have l: "length (buffer (body a b)) = length b" using Cons.prems by simp
  show ?case
  proof (cases "body a b")
    case (Returned b')
    then have "length b' = length b" using l by simp
    moreover have "length (buffer (for_each xs body b')) = length b'"
      using Cons.prems by (intro Cons.IH) simp
    ultimately show ?thesis using Returned by simp
  next
    case (Raised e b')
    then show ?thesis using l by simp
  qed
qed

lemma length_fill_region: "length (buffer (fill_region b W H xl)) = length b"
  unfolding fill_region_def Let_def
proof (rule for_each_length)
  fix y b'
  show "length (buffer (for_each (enumerate 0 xl)
          (\<lambda>(x, upper, lower) b.
             setitem b (int x + y * W) (if upper \<le> of_int y \<and> of_int y \<le> lower then 255 else 0))
          b')) = length b'"
    by (rule for_each_length) (auto simp: length_setitem)
qed

lemma for_each_returns:
  assumes "\<And>x b. x \<in> set xs \<Longrightarrow> length b = n \<Longrightarrow> \<exists>b'. body x b = Returned b' \<and> length b' = n"
    and "length b = n"
  shows "\<exists>b'. for_each xs body b = Returned b' \<and> length b' = n"
  using assms
proof (induction xs arbitrary: b)
  case Nil
  then show ?case by simp
next
  case (Cons a xs)
  from Cons.prems obtain b1 where b1: "body a b = Returned b1" "length b1 = n" by fastforce
  have "\<exists>b'. for_each xs body b1 = Returned b' \<and> length b' = n"
    using Cons.prems b1 by (intro Cons.IH) auto
  then show ?case using b1 by simp
qed

lemma fill_region_returns:
  assumes "0 \<le> W" "0 \<le> H" "length b = nat (W * H)" "int (length xl) \<le> W"
  shows "\<exists>m. fill_region b W H xl = Returned m \<and> length m = nat (W * H)"
  unfolding fill_region_def
proof (rule for_each_returns[OF _ assms(3)])
  fix y and b' :: buf assume y: "y \<in> set (py_range 0 H)" and l: "length b' = nat (W * H)"
  show "\<exists>b''. (let offset = y * W in
                 for_each (enumerate 0 xl)
                   (\<lambda>(x, upper, lower) b.
                      setitem b (int x + offset) (if upper \<le> of_int y \<and> of_int y \<le> lower then 255 else 0))
                   b') = Returned b'' \<and> length b'' = nat (W * H)"
    unfolding Let_def
  proof (rule for_each_returns[OF _ l])
    fix p and b2 :: buf assume p: "p \<in> set (enumerate 0 xl)" and l2: "length b2 = nat (W * H)"
    obtain x u lo where pe: "p = (x, u, lo)" by (cases p) auto
    have "x < length xl" using p pe by (auto simp: in_set_enumerate_eq)
    then have "0 \<le> int x" "int x < W" "0 \<le> y" "y < H" using assms(4) y by auto
    from cell_in_range[OF this] have "0 \<le> int x + y * W" "int x + y * W < int (length b2)"
      using l2 by (simp_all add: add.commute)
    then show "\<exists>b'. (case p of (x, upper, lower) \<Rightarrow> \<lambda>b.
                      setitem b (int x + y * W) (if upper \<le> of_int y \<and> of_int y \<le> lower then 255 else 0)) b2
               = Returned b' \<and> length b' = nat (W * H)"
      using l2 by (simp add: pe setitem_inrange)
  qed
qed

lemma mirror_distinct:
  assumes "0 \<le> W"
  shows "distinct (map (\<lambda>(y, x). nat (y * W + (W - 1 - x))) (List.product (py_range 0 H) (py_range 0 W)))"
proof -
  have "inj_on (\<lambda>(y, x). nat (y * W + (W - 1 - x))) (set (List.product (py_range 0 H) (py_range 0 W)))"
  proof (rule inj_onI, clarsimp)
    fix y x y' x' :: int
    assume a: "0 \<le> y" "y < H" "0 \<le> x" "x < W" "0 \<le> y'" "y' < H" "0 \<le> x'" "x' < W"
      and e: "nat (y * W + (W - 1 - x)) = nat (y' * W + (W - 1 - x'))"
    have "0 \<le> y * W + (W - 1 - x)" "0 \<le> y' * W + (W - 1 - x')" using a assms by simp_all
    with e have e': "y * W + (W - 1 - x) = y' * W + (W - 1 - x')" by linarith
    have "0 \<le> W - 1 - x" "W - 1 - x < W" "0 \<le> W - 1 - x'" "W - 1 - x' < W" using a by simp_all
    from grid_unique[OF this e'] show "y = y' \<and> x = x'" by simp
  qed
  then show ?thesis by (simp add: distinct_map distinct_product)
qed

lemma mirror_copy:
  assumes W: "0 \<le> W" and H: "0 \<le> H"
    and lm: "length m = nat (W * H)" and lb: "length b = nat (W * H)"
  shows "\<exists>out. for_each (py_range 0 H)
                   (\<lambda>y b. let offset = y * W in
                      for_each (py_range 0 W)
                        (\<lambda>src_x b.
                           let dest_x = W - 1 - src_x in
                           case getitem m (offset + src_x) of
                             Inl e \<Rightarrow> Raised e b
                           | Inr v \<Rightarrow> setitem_int b (offset + dest_x) v)
                        b)
                   b = Returned out
           \<and> length out = nat (W * H)
           \<and> (\<forall>x y. 0 \<le> x \<and> x < W \<and> 0 \<le> y \<and> y < H \<longrightarrow>
                 out ! nat (y * W + x) = m ! nat (y * W + (W - 1 - x)))"
proof -
  let ?idx = "\<lambda>(y, x). nat (y * W + (W - 1 - x))"
  let ?F = "\<lambda>(y, x) (old::byte). m ! nat (y * W + x)"
  let ?body = "\<lambda>(y, src_x) b.
                 case getitem m (y * W + src_x) of
                   Inl e \<Rightarrow> Raised e b
                 | Inr v \<Rightarrow> setitem_int b (y * W + (W - 1 - src_x)) v"
  let ?grid = "List.product (py_range 0 H) (py_range 0 W)"
  have fl: "for_each (py_range 0 H)
                   (\<lambda>y b. let offset = y * W in
                      for_each (py_range 0 W)
                        (\<lambda>src_x b.
                           let dest_x = W - 1 - src_x in
                           case getitem m (offset + src_x) of
                             Inl e \<Rightarrow> Raised e b
                           | Inr v \<Rightarrow> setitem_int b (offset + dest_x) v)
                        b)
                   b = for_each ?grid ?body b"
    unfolding Let_def by (rule for_each_product)
  have body: "?body p b' = Returned (b'[?idx p := ?F p (b' ! ?idx p)])"
    if "p \<in> set ?grid" "length b' = length b" for p b'
  proof -
    obtain y x where p: "p = (y, x)" by (cases p)
    have r: "0 \<le> x" "x < W" "0 \<le> y" "y < H" using that(1) p by auto
    have i: "0 \<le> y * W + x" "y * W + x < int (length m)"
      using cell_in_range[OF r] lm by simp_all
    have r': "0 \<le> W - 1 - x" "W - 1 - x < W" using r by simp_all
    have j: "0 \<le> y * W + (W - 1 - x)" "y * W + (W - 1 - x) < int (length b')"
      using cell_in_range[OF r' r(3,4)] that(2) lb by simp_all
    have v: "0 \<le> uint (m ! nat (y * W + x))" "uint (m ! nat (y * W + x)) < 256"
      using uint_bounded[of "m ! nat (y * W + x)"] by simp_all
    show ?thesis
      using v by (simp add: p getitem_inrange[OF i] setitem_int_def setitem_inrange[OF j])
  qed
  have "\<exists>out. for_each ?grid ?body b = Returned out \<and> length out = length b
           \<and> (\<forall>p\<in>set ?grid. out ! ?idx p = ?F p (b ! ?idx p))
           \<and> (\<forall>i. i \<notin> ?idx ` set ?grid \<longrightarrow> out ! i = b ! i)"
  proof (rule for_each_rmw)
    show "distinct (map ?idx ?grid)" using W by (rule mirror_distinct)
    show "\<forall>p\<in>set ?grid. ?idx p < length b"
    proof
      fix p assume "p \<in> set ?grid"
      then obtain y x where p: "p = (y, x)" and r: "0 \<le> x" "x < W" "0 \<le> y" "y < H" by auto
      have r': "0 \<le> W - 1 - x" "W - 1 - x < W" using r by simp_all
      from cell_in_range[OF r' r(3,4)] show "?idx p < length b" using lb p by (simp add: nat_less_iff)
    qed
    show "\<And>p b'. p \<in> set ?grid \<Longrightarrow> length b' = length b \<Longrightarrow>
            ?body p b' = Returned (b'[?idx p := ?F p (b' ! ?idx p)])"
      by (rule body)
  qed
  then obtain out where o: "for_each ?grid ?body b = Returned out" "length out = length b"
    "\<forall>p\<in>set ?grid. out ! ?idx p = ?F p (b ! ?idx p)"
    by blast
  have px: "out ! nat (y * W + x) = m ! nat (y * W + (W - 1 - x))"
    if "0 \<le> x \<and> x < W \<and> 0 \<le> y \<and> y < H" for x y
  proof -
    have "(y, W - 1 - x) \<in> set ?grid" using that by simp
    with o(3) have "out ! ?idx (y, W - 1 - x) = ?F (y, W - 1 - x) (b ! ?idx (y, W - 1 - x))"
      by blast
    then show ?thesis by simp
  qed
  show ?thesis using fl o(1,2) px lb by auto
qed

lemma block_sum_mirror:
  assumes x: "0 \<le> x" "x < w" and y: "0 \<le> y" "y < h"
    and mm: "\<And>i j. 0 \<le> i \<and> i < 4 * w \<and> 0 \<le> j \<and> j < 4 * h \<Longrightarrow>
               mm ! nat (j * (4 * w) + i) = m ! nat (j * (4 * w) + (4 * w - 1 - i))"
  shows "block_sum mm w x y = block_sum m w (w - 1 - x) y"
  unfolding block_sum_def
proof (rule sum.cong[OF refl])
  fix j assume j: "j \<in> {4 * y..<4 * y + 4}"
  have "(\<Sum>i\<in>{4 * x..<4 * x + 4}. uint (mm ! nat (4 * w * j + i)))
      = (\<Sum>i\<in>{4 * x..<4 * x + 4}. uint (m ! nat (4 * w * j + (4 * w - 1 - i))))"
  proof (rule sum.cong[OF refl])
    fix i assume "i \<in> {4 * x..<4 * x + 4}"
    then have "0 \<le> i \<and> i < 4 * w \<and> 0 \<le> j \<and> j < 4 * h" using x y j by auto
    from mm[OF this] show "uint (mm ! nat (4 * w * j + i)) = uint (m ! nat (4 * w * j + (4 * w - 1 - i)))"
      by (simp add: mult.commute)
  qed
  also have "\<dots> = (\<Sum>i\<in>{4 * (w - 1 - x)..<4 * (w - 1 - x) + 4}. uint (m ! nat (4 * w * j + i)))"
    by (rule sum.reindex_bij_witness[where i = "\<lambda>i. 4 * w - 1 - i" and j = "\<lambda>i. 4 * w - 1 - i"]) auto
  finally show "(\<Sum>i\<in>{4 * x..<4 * x + 4}. uint (mm ! nat (4 * w * j + i)))
      = (\<Sum>i\<in>{4 * (w - 1 - x)..<4 * (w - 1 - x) + 4}. uint (m ! nat (4 * w * j + i)))" .
qed

lemma D_outcomes:
  assumes w: "0 \<le> width" and h: "0 \<le> height" and len: "length buf = nat (width * height)"
  shows "(\<exists>e. D lims True g buf width height = Raised e buf \<and> D lims False g buf width height = Raised e buf)
       \<or> (\<exists>m mm. length m = nat (4 * width * (4 * height)) \<and> length mm = nat (4 * width * (4 * height))
             \<and> (\<exists>xl. lims (4 * width) (4 * height) = Inr xl
                    \<and> fill_region (replicate (nat (4 * width * (4 * height))) 0) (4 * width) (4 * height) xl
                        = Returned m)
             \<and> (\<forall>i j. 0 \<le> i \<and> i < 4 * width \<and> 0 \<le> j \<and> j < 4 * height \<longrightarrow>
                    mm ! nat (j * (4 * width) + i) = m ! nat (j * (4 * width) + (4 * width - 1 - i)))
             \<and> D lims True g buf width height = downsample m buf width height 4
             \<and> D lims False g buf width height = downsample mm buf width height 4)"
proof -
  let ?W = "4 * width" and ?H = "4 * height"
  let ?Z = "replicate (nat (?W * ?H)) (0::byte)"
  have W: "0 \<le> ?W" and H: "0 \<le> ?H" using w h by simp_all
  have "0 \<le> ?W * ?H" using W H by (rule mult_nonneg_nonneg)
  then have nn: "\<not> ?W * ?H < 0" by simp
  show ?thesis
  proof (cases "lims ?W ?H")
    case (Inl e)
    then have "D lims left g buf width height = Raised e buf" for left
      using nn by (simp add: D_def supersampled_def D_raw_def Let_def)
    then show ?thesis by blast
  next
    case (Inr xl)
    show ?thesis
    proof (cases "fill_region ?Z ?W ?H xl")
      case (Raised e m)
      then have "D lims left g buf width height = Raised e buf" for left
        using nn Inr by (cases left) (simp_all add: D_def supersampled_def D_raw_def Let_def)
      then show ?thesis by blast
    next
      case (Returned m)
      have "length (buffer (fill_region ?Z ?W ?H xl)) = length ?Z" by (rule length_fill_region)
      then have lm: "length m = nat (?W * ?H)" using Returned by simp
      have lz: "length ?Z = nat (?W * ?H)" by simp
      from mirror_copy[OF W H lm lz] obtain mm where mm:
        "for_each (py_range 0 ?H)
           (\<lambda>y b. let offset = y * ?W in
              for_each (py_range 0 ?W)
                (\<lambda>src_x b.
                   let dest_x = ?W - 1 - src_x in
                   case getitem m (offset + src_x) of
                     Inl e \<Rightarrow> Raised e b
                   | Inr v \<Rightarrow> setitem_int b (offset + dest_x) v)
                b)
           ?Z = Returned mm"
        "length mm = nat (?W * ?H)"
        "\<forall>x y. 0 \<le> x \<and> x < ?W \<and> 0 \<le> y \<and> y < ?H \<longrightarrow>
            mm ! nat (y * ?W + x) = m ! nat (y * ?W + (?W - 1 - x))"
        by blast
      have L: "D lims True g buf width height = downsample m buf width height 4"
        using nn Inr Returned by (simp add: D_def supersampled_def D_raw_def Let_def)
      have "D_raw lims False 4 g ?Z ?W ?H = Returned mm"
        using nn Inr Returned mm(1) by (simp add: D_raw_def)
      then have R: "D lims False g buf width height = downsample mm buf width height 4"
        using nn by (simp add: D_def supersampled_def Let_def)
      show ?thesis
        apply (rule disjI2, rule exI[of _ m], rule exI[of _ mm])
        using lm mm(2,3) L R Inr Returned by blast
    qed
  qed
qed

text \<open>
  \<^bold>\<open>C7.\<close>  For every width and height (even or not), every DPI and scale table and whatever
  limits the Bezier search yields, the supersampled \<open>D\<close> with \<open>left = True\<close> and with
  \<open>left = False\<close> on two zero buffers of \<open>width * height\<close> bytes either both raise the same
  exception and leave the buffers as they were, or both return and the buffers are
  horizontal mirror images: \<open>bufLeft[y * width + x] = bufRight[y * width + (width - 1 - x)]\<close>.
  They return whenever the search yields a list of limits no longer than the scratch
  buffer is wide.
\<close>

theorem D_mirror:
  assumes w: "0 \<le> width" and h: "0 \<le> height"
  shows "((\<exists>e. D lims True g (replicate (nat (width * height)) 0) width height
                  = Raised e (replicate (nat (width * height)) 0)
              \<and> D lims False g (replicate (nat (width * height)) 0) width height
                  = Raised e (replicate (nat (width * height)) 0))
        \<or> (\<exists>bufLeft bufRight.
              D lims True g (replicate (nat (width * height)) 0) width height = Returned bufLeft
            \<and> D lims False g (replicate (nat (width * height)) 0) width height = Returned bufRight
            \<and> length bufLeft = nat (width * height) \<and> length bufRight = nat (width * height)
            \<and> (\<forall>x y. 0 \<le> x \<and> x < width \<and> 0 \<le> y \<and> y < height \<longrightarrow>
                  bufLeft ! nat (y * width + x) = bufRight ! nat (y * width + (width - 1 - x)))))
       \<and> (\<forall>xl. lims (4 * width) (4 * height) = Inr xl \<and> int (length xl) \<le> 4 * width \<longrightarrow>
             (\<exists>bufLeft. D lims True g (replicate (nat (width * height)) 0) width height = Returned bufLeft))"
proof -
  let ?buf = "replicate (nat (width * height)) (0::byte)"
  let ?W = "4 * width" and ?H = "4 * height"
  have len: "length ?buf = nat (width * height)" by simp
  have W: "0 \<le> ?W" and H: "0 \<le> ?H" using w h by simp_all
  have ds: "\<exists>out. downsample src ?buf width height 4 = Returned out \<and> length out = length ?buf
           \<and> (\<forall>x y. 0 \<le> x \<and> x < width \<and> 0 \<le> y \<and> y < height \<longrightarrow>
                 uint (out ! nat (y * width + x)) =
                   min 255 (uint (?buf ! nat (y * width + x)) + block_sum src width x y div 16))"
    if "length src = nat (?W * ?H)" for src
    using w h len that by (rule downsample_spec)
  have first: "(\<exists>e. D lims True g ?buf width height = Raised e ?buf
              \<and> D lims False g ?buf width height = Raised e ?buf)
        \<or> (\<exists>bufLeft bufRight.
              D lims True g ?buf width height = Returned bufLeft
            \<and> D lims False g ?buf width height = Returned bufRight
            \<and> length bufLeft = nat (width * height) \<and> length bufRight = nat (width * height)
            \<and> (\<forall>x y. 0 \<le> x \<and> x < width \<and> 0 \<le> y \<and> y < height \<longrightarrow>
                  bufLeft ! nat (y * width + x) = bufRight ! nat (y * width + (width - 1 - x))))"
    using D_outcomes[OF w h len, of lims g]
  proof (elim disjE exE conjE)
    fix e assume "D lims True g ?buf width height = Raised e ?buf"
      "D lims False g ?buf width height = Raised e ?buf"
    then show ?thesis by blast
  next
    fix m mm xl
    assume lm: "length m = nat (?W * ?H)" and lmm: "length mm = nat (?W * ?H)"
      and mir: "\<forall>i j. 0 \<le> i \<and> i < ?W \<and> 0 \<le> j \<and> j < ?H \<longrightarrow>
                    mm ! nat (j * ?W + i) = m ! nat (j * ?W + (?W - 1 - i))"
      and L: "D lims True g ?buf width height = downsample m ?buf width height 4"
      and R: "D lims False g ?buf width height = downsample mm ?buf width height 4"
    from ds[OF lm] obtain bl where bl: "downsample m ?buf width height 4 = Returned bl"
      "length bl = length ?buf"
      "\<And>x y. 0 \<le> x \<and> x < width \<and> 0 \<le> y \<and> y < height \<Longrightarrow>
         uint (bl ! nat (y * width + x)) =
           min 255 (uint (?buf ! nat (y * width + x)) + block_sum m width x y div 16)"
      by blast
    from ds[OF lmm] obtain br where br: "downsample mm ?buf width height 4 = Returned br"
      "length br = length ?buf"
      "\<And>x y. 0 \<le> x \<and> x < width \<and> 0 \<le> y \<and> y < height \<Longrightarrow>
         uint (br ! nat (y * width + x)) =
           min 255 (uint (?buf ! nat (y * width + x)) + block_sum mm width x y div 16)"
      by blast
    have px: "bl ! nat (y * width + x) = br ! nat (y * width + (width - 1 - x))"
      if a: "0 \<le> x \<and> x < width \<and> 0 \<le> y \<and> y < height" for x y
    proof -
      have a': "0 \<le> width - 1 - x \<and> width - 1 - x < width \<and> 0 \<le> y \<and> y < height" using a by simp
      have "block_sum mm width (width - 1 - x) y = block_sum m width (width - 1 - (width - 1 - x)) y"
        using a' mir by (intro block_sum_mirror[where h = height]) auto
      then have bs: "block_sum mm width (width - 1 - x) y = block_sum m width x y" by simp
      have i1: "nat (y * width + x) < length ?buf"
        using cell_in_range[of x width y height] a by (simp add: nat_less_iff)
      have i2: "nat (y * width + (width - 1 - x)) < length ?buf"
        using cell_in_range[of "width - 1 - x" width y height] a' by (simp add: nat_less_iff)
      have "uint (bl ! nat (y * width + x)) = uint (br ! nat (y * width + (width - 1 - x)))"
        unfolding bl(3)[OF a] br(3)[OF a'] bs using i1 i2 by simp
      then show ?thesis by (simp add: word_uint_eq_iff)
    qed
    show ?thesis
      apply (rule disjI2, rule exI[of _ bl], rule exI[of _ br])
      using L R bl(1,2) br(1,2) px by simp
  qed
  have second: "\<exists>bufLeft. D lims True g ?buf width height = Returned bufLeft"
    if "lims ?W ?H = Inr xl \<and> int (length xl) \<le> ?W" for xl
  proof -
    have "0 \<le> ?W * ?H" using W H by (rule mult_nonneg_nonneg)
    then have nn: "\<not> ?W * ?H < 0" by simp
    from fill_region_returns[OF W H _ conjunct2[OF that], of "replicate (nat (?W * ?H)) 0"]
    obtain m where m: "fill_region (replicate (nat (?W * ?H)) 0) ?W ?H xl = Returned m"
      "length m = nat (?W * ?H)" by auto
    have "D lims True g ?buf width height = downsample m ?buf width height 4"
      using nn that m(1) by (simp add: D_def supersampled_def D_raw_def Let_def)
    with ds[OF m(2)] show ?thesis by auto
  qed
  from first second show ?thesis by blast
qed

theorem D_mirror_witness:
  "(0::int) \<le> 2
   \<and> (\<lambda>W H. Inr [(0, 7), (2, 5)] :: error + (rat \<times> rat) list) (4 * 2 :: int) (4 * 2 :: int) = Inr [(0, 7), (2, 5)]
   \<and> int (length [(0::rat, 7::rat), (2, 5)]) \<le> 4 * 2
   \<and> (\<exists>bufLeft bufRight.
          D (\<lambda>W H. Inr [(0, 7), (2, 5)]) True initial_globals (replicate (nat (2 * 2)) 0) 2 2 = Returned bufLeft
        \<and> D (\<lambda>W H. Inr [(0, 7), (2, 5)]) False initial_globals (replicate (nat (2 * 2)) 0) 2 2 = Returned bufRight
        \<and> length bufLeft = 4 \<and> length bufRight = 4
        \<and> bufLeft ! 0 = bufRight ! 1 \<and> bufLeft ! 1 = bufRight ! 0
        \<and> bufLeft ! 2 = bufRight ! 3 \<and> bufLeft ! 3 = bufRight ! 2)"
proof -
  let ?l = "\<lambda>(W::int) (H::int). Inr [(0, 7), (2, 5)] :: error + (rat \<times> rat) list"
  have h: "(0::int) \<le> 2" by simp
  have l: "?l (4 * 2) (4 * 2) = Inr [(0, 7), (2, 5)] \<and> int (length [(0::rat, 7::rat), (2, 5)]) \<le> 4 * 2"
    by simp
  note t = D_mirror[OF h h, of ?l initial_globals]
  from t l obtain b0 where b0: "D ?l True initial_globals (replicate (nat (2 * 2)) 0) 2 2 = Returned b0"
    by blast
  with t obtain bl br where b:
    "D ?l True initial_globals (replicate (nat (2 * 2)) 0) 2 2 = Returned bl"
    "D ?l False initial_globals (replicate (nat (2 * 2)) 0) 2 2 = Returned br"
    "length bl = nat (2 * 2)" "length br = nat (2 * 2)"
    "\<And>x y. 0 \<le> x \<and> x < 2 \<and> 0 \<le> y \<and> y < 2 \<Longrightarrow>
        bl ! nat (y * 2 + x) = br ! nat (y * 2 + (2 - 1 - x))"
    by auto
  have "bl ! 0 = br ! 1" "bl ! 1 = br ! 0" "bl ! 2 = br ! 3" "bl ! 3 = br ! 2"
    using b(5)[of 0 0] b(5)[of 1 0] b(5)[of 0 1] b(5)[of 1 1] by (simp_all add: eval_nat_numeral)
  then have "\<exists>bufLeft bufRight.
          D ?l True initial_globals (replicate (nat (2 * 2)) 0) 2 2 = Returned bufLeft
        \<and> D ?l False initial_globals (replicate (nat (2 * 2)) 0) 2 2 = Returned bufRight
        \<and> length bufLeft = 4 \<and> length bufRight = 4
        \<and> bufLeft ! 0 = bufRight ! 1 \<and> bufLeft ! 1 = bufRight ! 0
        \<and> bufLeft ! 2 = bufRight ! 3 \<and> bufLeft ! 3 = bufRight ! 2"
    using b(1-4) by auto
  with h l show ?thesis by simp
qed

subsection \<open>Guarded writes\<close>

lemma stays_inside_Returned [simp]: "stays_inside n b (Returned b)"
  by (simp add: stays_inside_def)

lemma stays_inside_Raised: "e \<noteq> IndexError \<Longrightarrow> stays_inside n b (Raised e b)"
  by (simp add: stays_inside_def)

lemma stays_inside_trans:
  assumes "stays_inside n b (Returned b1)" and "stays_inside n b1 out"
  shows "stays_inside n b out"
  using assms by (auto simp: stays_inside_def)

lemma stays_inside_setitem:
  assumes "0 \<le> i" "i < n" "n \<le> int (length b)"
  shows "stays_inside n b (setitem b i v)"
  using assms by (auto simp: stays_inside_def setitem_def Let_def)

lemma stays_inside_for_each:
  assumes "\<And>x b. x \<in> set xs \<Longrightarrow> length b = L \<Longrightarrow> stays_inside n b (body x b)"
    and "length b = L"
  shows "stays_inside n b (for_each xs body b)"
  using assms
proof (induction xs arbitrary: b)
  case Nil
  then show ?case by simp
next
  case (Cons a xs)
  have s: "stays_inside n b (body a b)" using Cons.prems by simp
  show ?case
  proof (cases "body a b")
    case (Returned b1)
    then have l: "length b1 = L" using s Cons.prems(2) by (simp add: stays_inside_def)
    have "stays_inside n b1 (for_each xs body b1)"
      using Cons.prems(1) l by (intro Cons.IH) simp_all
    with s Returned show ?thesis by (auto intro: stays_inside_trans)
  next
    case (Raised e b1)
    then show ?thesis using s by simp
  qed
qed

lemma thick_line_stays_inside:
  assumes "width * height \<le> int (length buf)"
  shows "stays_inside (width * height) buf (thick_line buf width height t p1 p2)"
proof -
  define q1 q2 where "q1 = (if fst p1 > fst p2 then p2 else p1)" and "q2 = (if fst p1 > fst p2 then p1 else p2)"
  have tl: "thick_line buf width height t p1 p2 =
     (case line_equation (fst q1) (snd q1) (fst q2) (snd q2) of
        Inl e \<Rightarrow> Raised e buf
      | Inr leq \<Rightarrow>
          for_each (py_range (fst q1) (fst q2 + 1))
            (\<lambda>x b.
               if 0 \<le> x \<and> x < width then
                 for_each (py_range (py_int (leq x) - t div 2) (py_int (leq x) + t div 2 + t mod 2))
                      (\<lambda>y b. if 0 \<le> y \<and> y < height then setitem b (x + y * width) 255
                              else Returned b)
                      b
               else Returned b)
            buf)"
    unfolding thick_line_def q1_def q2_def Let_def by (cases "fst p1 > fst p2") simp_all
  show ?thesis
  proof (cases "line_equation (fst q1) (snd q1) (fst q2) (snd q2)")
    case (Inl e)
    then have "e = ZeroDivisionError" by (auto simp: line_equation_def Let_def split: if_splits)
    then show ?thesis using Inl by (simp add: tl stays_inside_Raised)
  next
    case (Inr leq)
    have "stays_inside (width * height) buf
           (for_each (py_range (fst q1) (fst q2 + 1))
            (\<lambda>x b.
               if 0 \<le> x \<and> x < width then
                 for_each (py_range (py_int (leq x) - t div 2) (py_int (leq x) + t div 2 + t mod 2))
                      (\<lambda>y b. if 0 \<le> y \<and> y < height then setitem b (x + y * width) 255
                              else Returned b)
                      b
               else Returned b)
            buf)"
    proof (rule stays_inside_for_each[where L = "length buf"])
      fix x and b :: buf assume lb: "length b = length buf"
      show "stays_inside (width * height) b
              (if 0 \<le> x \<and> x < width then
                 for_each (py_range (py_int (leq x) - t div 2) (py_int (leq x) + t div 2 + t mod 2))
                      (\<lambda>y b. if 0 \<le> y \<and> y < height then setitem b (x + y * width) 255
                              else Returned b)
                      b
               else Returned b)"
      proof (cases "0 \<le> x \<and> x < width")
        case False
        then show ?thesis by auto
      next
        case True
        have "stays_inside (width * height) b
                (for_each (py_range (py_int (leq x) - t div 2) (py_int (leq x) + t div 2 + t mod 2))
                      (\<lambda>y b. if 0 \<le> y \<and> y < height then setitem b (x + y * width) 255
                              else Returned b)
                      b)"
        proof (rule stays_inside_for_each[where L = "length buf"])
          fix y and b' :: buf assume lb': "length b' = length buf"
          show "stays_inside (width * height) b'
                  (if 0 \<le> y \<and> y < height then setitem b' (x + y * width) 255 else Returned b')"
          proof (cases "0 \<le> y \<and> y < height")
            case False
            then show ?thesis by auto
          next
            case y: True
            from cell_in_range[of x width y height] True y
            have "0 \<le> x + y * width" "x + y * width < width * height" by (simp_all add: add.commute)
            then show ?thesis using y assms lb' by (simp add: stays_inside_setitem)
          qed
        qed (rule lb)
        with True show ?thesis by simp
      qed
    qed simp
    then show ?thesis using Inr by (simp add: tl)
  qed
qed

lemma stays_inside_setitem_int:
  assumes "0 \<le> i" "i < n" "n \<le> int (length b)"
  shows "stays_inside n b (setitem_int b i v)"
  using assms by (simp add: setitem_int_def stays_inside_setitem stays_inside_Raised)

lemma plot_stays_inside:
  assumes "width * height \<le> int (length b)"
  shows "stays_inside (width * height) b
          (for_each (py_range y1 y2)
             (\<lambda>y b.
                if 0 \<le> y \<and> y < height then
                  let offset = y * width in
                  for_each (py_range x1 x2)
                    (\<lambda>x b.
                       if 0 \<le> x \<and> x < width then
                         let pos = offset + x in
                         case getitem b pos of
                           Inl e \<Rightarrow> Raised e b
                         | Inr v \<Rightarrow> setitem_int b pos (min 255 (v + 255))
                       else Returned b)
                    b
                else Returned b)
             b)"
proof (rule stays_inside_for_each[where L = "length b"])
  fix y and b1 :: buf assume l1: "length b1 = length b"
  show "stays_inside (width * height) b1
          (if 0 \<le> y \<and> y < height then
             let offset = y * width in
             for_each (py_range x1 x2)
               (\<lambda>x b.
                  if 0 \<le> x \<and> x < width then
                    let pos = offset + x in
                    case getitem b pos of
                      Inl e \<Rightarrow> Raised e b
                    | Inr v \<Rightarrow> setitem_int b pos (min 255 (v + 255))
                  else Returned b)
               b1
           else Returned b1)"
  proof (cases "0 \<le> y \<and> y < height")
    case False
    then show ?thesis by auto
  next
    case y: True
    have "stays_inside (width * height) b1
            (for_each (py_range x1 x2)
               (\<lambda>x b.
                  if 0 \<le> x \<and> x < width then
                    case getitem b (y * width + x) of
                      Inl e \<Rightarrow> Raised e b
                    | Inr v \<Rightarrow> setitem_int b (y * width + x) (min 255 (v + 255))
                  else Returned b)
               b1)"
    proof (rule stays_inside_for_each[where L = "length b"])
      fix x and b2 :: buf assume l2: "length b2 = length b"
      show "stays_inside (width * height) b2
              (if 0 \<le> x \<and> x < width then
                 case getitem b2 (y * width + x) of
                   Inl e \<Rightarrow> Raised e b2
                 | Inr v \<Rightarrow> setitem_int b2 (y * width + x) (min 255 (v + 255))
               else Returned b2)"
      proof (cases "0 \<le> x \<and> x < width")
        case False
        then show ?thesis by auto
      next
        case x: True
        from cell_in_range[of x width y height] x y
        have i: "0 \<le> y * width + x" "y * width + x < width * height" by simp_all
        then have j: "y * width + x < int (length b2)" using assms l2 by simp
        have "stays_inside (width * height) b2
                (setitem_int b2 (y * width + x) (min 255 (uint (b2 ! nat (y * width + x)) + 255)))"
          using i assms l2 by (intro stays_inside_setitem_int) simp_all
        then show ?thesis using x by (simp add: getitem_inrange[OF i(1) j])
      qed
    qed (rule l1)
    then show ?thesis using y unfolding Let_def by simp
  qed
qed simp

lemma curve_samples_stays_inside:
  assumes "width * height \<le> int (length buf)"
  shows "stays_inside (width * height) buf
           (curve_samples width height num_samples delta extra xfunc yfunc samples seen buf)"
  using assms
proof (induction samples arbitrary: seen buf)
  case Nil
  then show ?case by simp
next
  case (Cons i rest)
  show ?case
  proof (cases "num_samples = 0")
    case True
    then show ?thesis by (simp add: stays_inside_Raised)
  next
    case ns: False
    define x_p y_p where "x_p = py_int (xfunc (of_int i / of_int num_samples))"
      and "y_p = py_int (yfunc (of_int i / of_int num_samples))"
    let ?plot = "for_each (py_range (y_p - delta) (y_p + delta + extra))
             (\<lambda>y b.
                if 0 \<le> y \<and> y < height then
                  let offset = y * width in
                  for_each (py_range (x_p - delta) (x_p + delta + extra))
                    (\<lambda>x b.
                       if 0 \<le> x \<and> x < width then
                         let pos = offset + x in
                         case getitem b pos of
                           Inl e \<Rightarrow> Raised e b
                         | Inr v \<Rightarrow> setitem_int b pos (min 255 (v + 255))
                       else Returned b)
                    b
                else Returned b)
             buf"
    have step: "curve_samples width height num_samples delta extra xfunc yfunc (i # rest) seen buf =
      (if (x_p, y_p) \<in> seen
       then curve_samples width height num_samples delta extra xfunc yfunc rest seen buf
       else (case ?plot of
               Raised e b \<Rightarrow> Raised e b
             | Returned b \<Rightarrow>
                 curve_samples width height num_samples delta extra xfunc yfunc rest
                   (insert (x_p, y_p) seen) b))"
      using ns unfolding x_p_def y_p_def curve_samples.simps Let_def by simp
    have p: "stays_inside (width * height) buf ?plot"
      using Cons.prems by (rule plot_stays_inside)
    show ?thesis
    proof (cases "(x_p, y_p) \<in> seen")
      case True
      then show ?thesis using step Cons.IH[OF Cons.prems] by simp
    next
      case False
      show ?thesis
      proof (cases ?plot)
        case (Returned b1)
        then have "length b1 = length buf" using p by (simp add: stays_inside_def)
        then have "width * height \<le> int (length b1)" using Cons.prems by simp
        from Cons.IH[OF this]
        have "stays_inside (width * height) b1
                (curve_samples width height num_samples delta extra xfunc yfunc rest
                   (insert (x_p, y_p) seen) b1)" .
        with p Returned have "stays_inside (width * height) buf
                (curve_samples width height num_samples delta extra xfunc yfunc rest
                   (insert (x_p, y_p) seen) b1)"
          by (auto intro: stays_inside_trans)
        then show ?thesis using step False Returned by simp
      next
        case (Raised e b1)
        then show ?thesis using step False p by simp
      qed
    qed
  qed
qed

lemma draw_parametrized_curve_stays_inside:
  assumes "width * height \<le> int (length buf)"
  shows "stays_inside (width * height) buf (draw_parametrized_curve buf width height t xfunc yfunc)"
  unfolding draw_parametrized_curve_def Let_def using assms by (rule curve_samples_stays_inside)

lemma supersampled_stays_inside:
  assumes w: "0 \<le> width" and h: "0 \<le> height"
    and len: "width * height \<le> int (length buf)"
    and scratch: "\<And>Z. length Z = nat (4 * width * (4 * height)) \<Longrightarrow>
                    stays_inside (4 * width * (4 * height)) Z (f 4 g Z (4 * width) (4 * height))"
  shows "stays_inside (width * height) buf (supersampled 4 f g buf width height)"
proof -
  let ?Z = "replicate (nat (4 * width * (4 * height))) (0::byte)"
  have "0 \<le> 4 * width * (4 * height)" using w h by (intro mult_nonneg_nonneg) simp_all
  then have nn: "\<not> 4 * width * (4 * height) < 0" by simp
  have s: "stays_inside (4 * width * (4 * height)) ?Z (f 4 g ?Z (4 * width) (4 * height))"
    by (rule scratch) simp
  show ?thesis
  proof (cases "f 4 g ?Z (4 * width) (4 * height)")
    case (Raised e ss)
    then have "e \<noteq> IndexError" using s by (auto simp: stays_inside_def)
    then show ?thesis using Raised nn by (simp add: supersampled_def Let_def stays_inside_Raised)
  next
    case (Returned ss)
    then have ls: "length ss = nat (4 * width * (4 * height))" using s by (simp add: stays_inside_def)
    have ld: "nat (width * height) \<le> length buf" using len by simp
    from downsample_frame[OF w h ld ls]
    obtain out where o: "downsample ss buf width height 4 = Returned out" "length out = length buf"
      "\<forall>i. nat (width * height) \<le> i \<longrightarrow> out ! i = buf ! i"
      by blast
    have "stays_inside (width * height) buf (Returned out)"
      using o(2,3) by (auto simp: stays_inside_def nat_le_iff)
    then show ?thesis using Returned nn o(1) by (simp add: supersampled_def Let_def)
  qed
qed

lemma cross_line_stays_inside:
  assumes "0 \<le> width" "0 \<le> height" "width * height \<le> int (length buf)"
    and t: "thickness g level True = Inr tk"
  shows "stays_inside (width * height) buf (cross_line left level g buf width height)"
  unfolding cross_line_def using assms(1-3)
proof (rule supersampled_stays_inside)
  fix Z :: buf assume "length Z = nat (4 * width * (4 * height))"
  then have "4 * width * (4 * height) \<le> int (length Z)" by simp
  then have tl: "stays_inside (4 * width * (4 * height)) Z
                   (thick_line Z (4 * width) (4 * height) tp p1 p2)" for tp p1 p2
    by (rule thick_line_stays_inside)
  show "stays_inside (4 * width * (4 * height)) Z
               (cross_line_raw left level 4 g Z (4 * width) (4 * height))"
    unfolding cross_line_raw_def Let_def
    by (cases left) (simp_all only: t tl sum.case prod.case if_True if_False)
qed

lemma half_cross_line_stays_inside:
  assumes "0 \<le> width" "0 \<le> height" "width * height \<le> int (length buf)"
    and t: "thickness g level True = Inr tk"
  shows "stays_inside (width * height) buf (half_cross_line which level g buf width height)"
  unfolding half_cross_line_def using assms(1-3)
proof (rule supersampled_stays_inside)
  fix Z :: buf assume "length Z = nat (4 * width * (4 * height))"
  then have "4 * width * (4 * height) \<le> int (length Z)" by simp
  then have tl: "stays_inside (4 * width * (4 * height)) Z
                   (thick_line Z (4 * width) (4 * height) tp p1 p2)" for tp p1 p2
    by (rule thick_line_stays_inside)
  show "stays_inside (4 * width * (4 * height)) Z
               (half_cross_line_raw which level 4 g Z (4 * width) (4 * height))"
    unfolding half_cross_line_raw_def Let_def
    by (simp only: t tl sum.case prod.case simp_thms split: if_splits)
qed

lemma rounded_corner_stays_inside:
  assumes "0 \<le> width" "0 \<le> height" "width * height \<le> int (length buf)"
    and t: "thickness g level True = Inr tk"
  shows "stays_inside (width * height) buf (rounded_corner level which g buf width height)"
  unfolding rounded_corner_def using assms(1-3)
proof (rule supersampled_stays_inside)
  fix Z :: buf assume "length Z = nat (4 * width * (4 * height))"
  then have "4 * width * (4 * height) \<le> int (length Z)" by simp
  then have dc: "stays_inside (4 * width * (4 * height)) Z
                   (draw_parametrized_curve Z (4 * width) (4 * height) tp xf yf)" for tp xf yf
    by (rule draw_parametrized_curve_stays_inside)
  have ub: "stays_inside (4 * width * (4 * height)) Z (Raised UnboundLocalError Z)"
    by (simp add: stays_inside_Raised)
  show "stays_inside (4 * width * (4 * height)) Z
               (rounded_corner_raw level which 4 g Z (4 * width) (4 * height))"
    unfolding rounded_corner_raw_def Let_def
    by (cases which)
       (simp_all only: t dc ub sum.case prod.case arc.case option.case simp_thms split: prod.splits)
qed

text \<open>
  \<^bold>\<open>C10.\<close>  On a buffer of at least \<open>width * height\<close> bytes, \<open>thick_line\<close> and
  \<open>draw_parametrized_curve\<close> keep every write inside the first \<open>width * height\<close> bytes, for
  all endpoints, thicknesses and curve functions: the buffer keeps its length, every
  byte beyond the cell is unchanged and IndexError is never raised.  The same holds
  for the supersampled \<open>cross_line\<close>, \<open>half_cross_line\<close> and \<open>rounded_corner\<close> at a level of
  the scale table.  \<open>draw_hline\<close> and \<open>draw_vline\<close> check no bound: a band below the cell
  raises IndexError, and a band that starts above row 0 is written, through negative
  indices, at the end of the buffer.
\<close>

theorem guarded_writes_stay_inside:
  assumes "width * height \<le> int (length buf)"
  shows "stays_inside (width * height) buf (thick_line buf width height t p1 p2)
       \<and> stays_inside (width * height) buf (draw_parametrized_curve buf width height t xfunc yfunc)
       \<and> (0 \<le> width \<and> 0 \<le> height \<and> thickness g level True = Inr tk \<longrightarrow>
            stays_inside (width * height) buf (cross_line left level g buf width height)
          \<and> stays_inside (width * height) buf (half_cross_line which level g buf width height)
          \<and> stays_inside (width * height) buf (rounded_corner level corner g buf width height))
       \<and> draw_hline initial_globals (replicate 4 0) 2 0 2 5 1 = Raised IndexError (replicate 4 0)
       \<and> draw_hline initial_globals (replicate 4 0) 2 0 2 0 1 = Returned [255, 255, 255, 255]
       \<and> draw_vline initial_globals (replicate 4 0) 2 0 2 5 1 = Raised IndexError (replicate 4 0)"
proof (intro conjI impI)
  show "stays_inside (width * height) buf (thick_line buf width height t p1 p2)"
    using assms by (rule thick_line_stays_inside)
  show "stays_inside (width * height) buf (draw_parametrized_curve buf width height t xfunc yfunc)"
    using assms by (rule draw_parametrized_curve_stays_inside)
  show "draw_hline initial_globals (replicate 4 0) 2 0 2 5 1 = Raised IndexError (replicate 4 0)"
    by (simp add: draw_hline_def thickness_initial_1 py_range_def upto.simps setitem_def Let_def
        eval_nat_numeral)
  show "draw_hline initial_globals (replicate 4 0) 2 0 2 0 1 = Returned [255, 255, 255, 255]"
    by (simp add: draw_hline_def thickness_initial_1 py_range_def upto.simps setitem_def Let_def
        eval_nat_numeral)
  show "draw_vline initial_globals (replicate 4 0) 2 0 2 5 1 = Raised IndexError (replicate 4 0)"
    by (simp add: draw_vline_def thickness_initial_1 py_range_def upto.simps setitem_def Let_def
        eval_nat_numeral)
next
  assume a: "0 \<le> width \<and> 0 \<le> height \<and> thickness g level True = Inr tk"
  show "stays_inside (width * height) buf (cross_line left level g buf width height)"
    using a assms by (intro cross_line_stays_inside) auto
  show "stays_inside (width * height) buf (half_cross_line which level g buf width height)"
    using a assms by (intro half_cross_line_stays_inside) auto
  show "stays_inside (width * height) buf (rounded_corner level corner g buf width height)"
    using a assms by (intro rounded_corner_stays_inside) auto
qed

theorem guarded_writes_stay_inside_witness:
  "(2::int) * 2 \<le> int (length (replicate 6 (0::byte)))
   \<and> ((0::int) \<le> 2 \<and> thickness initial_globals 1 True = Inr 2)
   \<and> thick_line (replicate 6 0) 2 2 3 (0, 0) (5, 7) = Returned [255, 255, 255, 255, 0, 0]
   \<and> stays_inside (2 * 2) (replicate 6 0) (thick_line (replicate 6 0) 2 2 3 (0, 0) (5, 7))
   \<and> stays_inside (2 * 2) (replicate 6 0)
         (draw_parametrized_curve (replicate 6 0) 2 2 3 (\<lambda>t. 10 * t) (\<lambda>t. 10 * t - 3))
   \<and> stays_inside (2 * 2) (replicate 6 0) (cross_line True 1 initial_globals (replicate 6 0) 2 2)
   \<and> stays_inside (2 * 2) (replicate 6 0) (half_cross_line ''tl'' 1 initial_globals (replicate 6 0) 2 2)
   \<and> stays_inside (2 * 2) (replicate 6 0) (rounded_corner 1 Arc1 initial_globals (replicate 6 0) 2 2)"
proof -
  have l: "(2::int) * 2 \<le> int (length (replicate 6 (0::byte)))" by simp
  have h: "(0::int) \<le> 2 \<and> (0::int) \<le> 2 \<and> thickness initial_globals 1 True = Inr 2"
    by (simp add: thickness_initial_1)
  have v: "thick_line (replicate 6 0) 2 2 3 (0, 0) (5, 7) = Returned [255, 255, 255, 255, 0, 0]"
    by code_simp
  note t = guarded_writes_stay_inside[OF l, of 3 "(0, 0)" "(5, 7)" "\<lambda>t. 10 * t" "\<lambda>t. 10 * t - 3"
      initial_globals 1 2 True "''tl''" Arc1]
  from t h l v show ?thesis by blast
qed

end
